theory Spec2Isabelle
  imports Main "HOL-Library.Signed_Division"
begin

section \<open>The allocator of smalloc.c\<close>

text \<open>
  An embedding of \<^verbatim>\<open>src/smalloc.c\<close>: one region of memory, an address-ordered doubly
  linked free list threaded through in-band segment headers, first-fit search,
  split on allocation and coalescing on release.

  Modelling decisions.
  \<^item> Addresses and C \<^verbatim>\<open>int\<close>s are HOL integers. The arithmetic that the allocator does
    on a caller's argument (\<open>align_value\<close>, and the required size and the remaining space
    in \<open>smalloc\<close>) is 32-bit: every operation wraps around as two's complement, which is
    what the compiled code computes where C leaves signed overflow undefined. The sums of
    two segment sizes in \<open>merge_adjacent\<close> and the step counter stay far inside the range
    of an \<^verbatim>\<open>int\<close> in every state of the theorems and are written without the wrap.
    C's division truncates towards zero, which is \<open>sdiv\<close>.
  \<^item> A pointer is the address it holds; \<^verbatim>\<open>NULL\<close> is the address 0.
  \<^item> The memory is a store from addresses to segment headers. A header is read and
    written as a whole object at its start address: the store does not model bytes, so
    payload contents and headers that would overlap bytewise are outside the model. The
    store is exact as long as every header that is read or written is the header of a
    current segment of the region, which is what the valid sequences of calls below
    ensure; it is not exact for a handle whose segment no longer exists, where the C code
    reads whatever bytes now lie at the old header.
  \<^item> The three globals of the C file are the first three fields of \<open>state\<close>.
  \<^item> \<^verbatim>\<open>sizeof(mem_seg_t)\<close> is 24, its value on the LP64 ABI (two 4-byte ints and two
    8-byte pointers).
  \<^item> The three loops walk \<^verbatim>\<open>next\<close> pointers and need not terminate on an arbitrary
    store, so they are option-valued partial functions: \<open>None\<close> is a loop that runs
    forever. Every function that runs one of them returns an option as well.
  \<^item> The results of \<^verbatim>\<open>open\<close> and \<^verbatim>\<open>mmap\<close> are parameters of \<open>my_init\<close>.
\<close>

subsection \<open>Data\<close>

record mem_seg =
  seg_size :: int
  in_use :: int
  seg_next :: int
  seg_prev :: int

type_synonym heap = "int \<Rightarrow> mem_seg"

record state =
  base_address :: int
  free_list_head :: int
  total_region :: int
  heap :: heap

text \<open>The status record of \<^verbatim>\<open>smalloc.h\<close>, which the C code fills through a pointer.\<close>

record Malloc_Status =
  success :: int
  payload_offset :: int
  hops :: int

abbreviation NULL :: int where
  "NULL \<equiv> 0"

abbreviation MAP_FAILED :: int where
  "MAP_FAILED \<equiv> - 1"

definition hdr_size :: int where
  "hdr_size = 24"

text \<open>Assignments to one field of the header at address \<open>p\<close>, and to the list head.\<close>

definition set_seg_size :: "int \<Rightarrow> int \<Rightarrow> state \<Rightarrow> state" where
  "set_seg_size p v s = s\<lparr>heap := (heap s)(p := (heap s p)\<lparr>seg_size := v\<rparr>)\<rparr>"

definition set_in_use :: "int \<Rightarrow> int \<Rightarrow> state \<Rightarrow> state" where
  "set_in_use p v s = s\<lparr>heap := (heap s)(p := (heap s p)\<lparr>in_use := v\<rparr>)\<rparr>"

definition set_next :: "int \<Rightarrow> int \<Rightarrow> state \<Rightarrow> state" where
  "set_next p v s = s\<lparr>heap := (heap s)(p := (heap s p)\<lparr>seg_next := v\<rparr>)\<rparr>"

definition set_prev :: "int \<Rightarrow> int \<Rightarrow> state \<Rightarrow> state" where
  "set_prev p v s = s\<lparr>heap := (heap s)(p := (heap s p)\<lparr>seg_prev := v\<rparr>)\<rparr>"

definition set_head :: "int \<Rightarrow> state \<Rightarrow> state" where
  "set_head v s = s\<lparr>free_list_head := v\<rparr>"

subsection \<open>The functions of the C file\<close>

text \<open>
  The value a 32-bit \<^verbatim>\<open>int\<close> holds after an operation whose exact result is \<open>x\<close>, and
  the four operations on \<^verbatim>\<open>int\<close>s that the allocator applies to a caller's argument.
\<close>

definition to_int32 :: "int \<Rightarrow> int" where
  "to_int32 x = (x + 2147483648) mod 4294967296 - 2147483648"

definition add32 :: "int \<Rightarrow> int \<Rightarrow> int" where
  "add32 a b = to_int32 (a + b)"

definition sub32 :: "int \<Rightarrow> int \<Rightarrow> int" where
  "sub32 a b = to_int32 (a - b)"

definition mul32 :: "int \<Rightarrow> int \<Rightarrow> int" where
  "mul32 a b = to_int32 (a * b)"

definition div32 :: "int \<Rightarrow> int \<Rightarrow> int" where
  "div32 a b = to_int32 (a sdiv b)"

definition align_value :: "int \<Rightarrow> int \<Rightarrow> int" where
  "align_value sz factor = mul32 (div32 (sub32 (add32 sz factor) 1) factor) factor"

text \<open>
  The loop of \<^verbatim>\<open>search_for_fit\<close>, from \<open>current\<close> with \<open>steps\<close> counted so far; the
  result is the returned pointer and the final \<^verbatim>\<open>*steps\<close>.
\<close>

partial_function (option) search_loop :: "heap \<Rightarrow> int \<Rightarrow> int \<Rightarrow> int \<Rightarrow> (int \<times> int) option" where
  "search_loop h needed_size current steps =
     (if current \<noteq> NULL then
        (if seg_size (h current) \<ge> needed_size then Some (current, steps)
         else search_loop h needed_size (seg_next (h current)) (steps + 1))
      else Some (NULL, steps))"

declare search_loop.simps [code]

definition search_for_fit :: "int \<Rightarrow> state \<Rightarrow> (int \<times> int) option" where
  "search_for_fit needed_size s = search_loop (heap s) needed_size (free_list_head s) 0"

text \<open>The loop of \<^verbatim>\<open>add_to_free_list\<close> that advances \<open>runner\<close>.\<close>

partial_function (option) find_runner :: "heap \<Rightarrow> int \<Rightarrow> int \<Rightarrow> int option" where
  "find_runner h seg runner =
     (if seg_next (h runner) \<noteq> NULL \<and> seg_next (h runner) < seg
      then find_runner h seg (seg_next (h runner))
      else Some runner)"

declare find_runner.simps [code]

definition add_to_free_list :: "int \<Rightarrow> state \<Rightarrow> state option" where
  "add_to_free_list seg s0 =
     (let s = set_in_use seg 0 s0 in
      if free_list_head s = NULL then
        Some (let s = set_head seg s; s = set_prev seg NULL s; s = set_next seg NULL s in s)
      else if seg < free_list_head s then
        Some (let s = set_next seg (free_list_head s) s;
                  s = set_prev seg NULL s;
                  s = set_prev (free_list_head s) seg s;
                  s = set_head seg s
              in s)
      else
        (case find_runner (heap s) seg (free_list_head s) of
           None \<Rightarrow> None
         | Some runner \<Rightarrow>
             Some (let s = set_next seg (seg_next (heap s runner)) s;
                       s = (if seg_next (heap s runner) \<noteq> NULL
                            then set_prev (seg_next (heap s runner)) seg s else s);
                       s = set_next runner seg s;
                       s = set_prev seg runner s
                   in s)))"

definition remove_from_free_list :: "int \<Rightarrow> state \<Rightarrow> state" where
  "remove_from_free_list seg s0 =
     (let s = (if seg = free_list_head s0 then
                 (let s = set_head (seg_next (heap s0 seg)) s0 in
                  if free_list_head s \<noteq> NULL then set_prev (free_list_head s) NULL s else s)
               else
                 (let s = (if seg_prev (heap s0 seg) \<noteq> NULL
                           then set_next (seg_prev (heap s0 seg)) (seg_next (heap s0 seg)) s0
                           else s0);
                      s = (if seg_next (heap s seg) \<noteq> NULL
                           then set_prev (seg_next (heap s seg)) (seg_prev (heap s seg)) s
                           else s)
                  in s));
          s = set_prev seg NULL s;
          s = set_next seg NULL s
      in s)"

text \<open>The loop of \<^verbatim>\<open>merge_adjacent\<close> that looks for the free segment ending at \<open>seg\<close>.\<close>

partial_function (option) find_prev :: "heap \<Rightarrow> int \<Rightarrow> int \<Rightarrow> int option" where
  "find_prev h seg temp =
     (if temp \<noteq> NULL then
        (if temp + seg_size (h temp) = seg then Some temp
         else find_prev h seg (seg_next (h temp)))
      else Some NULL)"

declare find_prev.simps [code]

definition merge_adjacent :: "int \<Rightarrow> state \<Rightarrow> (int \<times> state) option" where
  "merge_adjacent seg s0 =
     (let next_seg = seg + seg_size (heap s0 seg);
          s = (if next_seg < base_address s0 + total_region s0 \<and> in_use (heap s0 next_seg) = 0
               then (let s = remove_from_free_list next_seg s0 in
                     set_seg_size seg (seg_size (heap s seg) + seg_size (heap s next_seg)) s)
               else s0)
      in case find_prev (heap s) seg (free_list_head s) of
           None \<Rightarrow> None
         | Some prev_seg \<Rightarrow>
             if prev_seg \<noteq> NULL then
               (let s = remove_from_free_list prev_seg s;
                    s = remove_from_free_list seg s;
                    s = set_seg_size prev_seg
                          (seg_size (heap s prev_seg) + seg_size (heap s seg)) s
                in case add_to_free_list prev_seg s of
                     None \<Rightarrow> None
                   | Some s \<Rightarrow> Some (prev_seg, s))
             else Some (seg, s))"

text \<open>
  \<open>fd\<close> is what \<^verbatim>\<open>open\<close> returned and \<open>mapped\<close> what \<^verbatim>\<open>mmap\<close> returned. The result is
  the return code and the new state.
\<close>

definition my_init :: "int \<Rightarrow> int \<Rightarrow> int \<Rightarrow> state \<Rightarrow> int \<times> state" where
  "my_init region_size fd mapped s0 =
     (let page_sz = 4096;
          adjusted = align_value region_size page_sz
      in if fd < 0 then (- 1, s0)
         else
           (let s = s0\<lparr>base_address := mapped\<rparr> in
            if base_address s = MAP_FAILED then (- 1, s)
            else
              (let initial_seg = base_address s;
                   s = set_seg_size initial_seg adjusted s;
                   s = set_in_use initial_seg 0 s;
                   s = set_prev initial_seg NULL s;
                   s = set_next initial_seg NULL s;
                   s = set_head initial_seg s;
                   s = s\<lparr>total_region := adjusted\<rparr>
               in (0, s))))"

definition alloc_failed :: Malloc_Status where
  "alloc_failed = \<lparr>success = 0, payload_offset = - 1, hops = - 1\<rparr>"

text \<open>
  The result is the returned pointer, the status written through \<^verbatim>\<open>stat\<close> and the
  new state. The payload offset is a difference of two \<^verbatim>\<open>unsigned long\<close>s.
\<close>

definition smalloc :: "int \<Rightarrow> state \<Rightarrow> (int \<times> Malloc_Status \<times> state) option" where
  "smalloc payload_size s0 =
     (if base_address s0 = NULL then Some (NULL, alloc_failed, s0)
      else
        (let total_required = add32 hdr_size payload_size;
             total_required = align_value total_required 8
         in
         case search_for_fit total_required s0 of
           None \<Rightarrow> None
         | Some (target, step_counter) \<Rightarrow>
             if target = NULL then Some (NULL, alloc_failed, s0)
             else
               (let remaining_space = sub32 (seg_size (heap s0 target)) total_required;
                    s = remove_from_free_list target s0;
                    r = (if remaining_space \<ge> hdr_size then
                           (let free_seg = target + total_required;
                                s = set_seg_size free_seg remaining_space s;
                                s = set_in_use free_seg 0 s;
                                s = set_prev free_seg NULL s;
                                s = set_next free_seg NULL s;
                                s = set_seg_size target total_required s
                            in add_to_free_list free_seg s)
                         else Some s)
                in case r of
                     None \<Rightarrow> None
                   | Some s \<Rightarrow>
                       (let s = set_in_use target 1 s;
                            usable_mem = target + hdr_size
                        in Some (usable_mem,
                                 \<lparr>success = 1,
                                  payload_offset = (usable_mem - base_address s) mod 2 ^ 64,
                                  hops = step_counter\<rparr>,
                                 s)))))"

definition sfree :: "int \<Rightarrow> state \<Rightarrow> state option" where
  "sfree ptr s0 =
     (if ptr = NULL \<or> base_address s0 = NULL then Some s0
      else
        (let seg = ptr - hdr_size in
         if in_use (heap s0 seg) = 0 then Some s0
         else
           (case add_to_free_list seg s0 of
              None \<Rightarrow> None
            | Some s \<Rightarrow>
                (case merge_adjacent seg s of
                   None \<Rightarrow> None
                 | Some (result, s) \<Rightarrow> Some s))))"

subsection \<open>Observing a state\<close>

text \<open>
  The segments of the region are found as the C code finds a successor in
  \<^verbatim>\<open>merge_adjacent\<close>: the first header is at the base address and the next one
  \<open>seg_size\<close> bytes after the current one. The walk stops at the end of the region, or
  at a header whose size is not positive.
\<close>

function walk :: "heap \<Rightarrow> int \<Rightarrow> int \<Rightarrow> int list" where
  "walk h a e = (if a < e \<and> 0 < seg_size (h a) then a # walk h (a + seg_size (h a)) e else [])"
  by pat_completeness auto
termination
  by (relation "measure (\<lambda>(h, a, e). nat (e - a))") auto

definition segments :: "state \<Rightarrow> int list" where
  "segments s = walk (heap s) (base_address s) (base_address s + total_region s)"


definition is_free :: "heap \<Rightarrow> int \<Rightarrow> bool" where
  "is_free h a = (in_use (h a) = 0)"

text \<open>
  \<open>tiling h a e ss\<close>: the headers at the addresses \<open>ss\<close> tile the bytes from \<open>a\<close> up to
  \<open>e\<close> exactly, and each segment has room for its own header.
\<close>

fun tiling :: "heap \<Rightarrow> int \<Rightarrow> int \<Rightarrow> int list \<Rightarrow> bool" where
  "tiling h a e [] = (a = e)"
| "tiling h a e (x # xs) = (a = x \<and> hdr_size \<le> seg_size (h x) \<and> tiling h (x + seg_size (h x)) e xs)"

text \<open>
  \<open>dlseg h p a xs b\<close>: following \<open>seg_next\<close> from \<open>a\<close> visits exactly the nodes \<open>xs\<close>
  and arrives at \<open>b\<close>; the \<open>seg_prev\<close> of each node is the node before it, \<open>p\<close> for
  the first. \<open>dll\<close> is a whole list: it ends in \<open>NULL\<close>.
\<close>

fun dlseg :: "heap \<Rightarrow> int \<Rightarrow> int \<Rightarrow> int list \<Rightarrow> int \<Rightarrow> bool" where
  "dlseg h p a [] b = (a = b)"
| "dlseg h p a (x # xs) b =
     (a = x \<and> x \<noteq> NULL \<and> seg_prev (h x) = p \<and> dlseg h x (seg_next (h x)) xs b)"

definition dll :: "heap \<Rightarrow> int \<Rightarrow> int \<Rightarrow> int list \<Rightarrow> bool" where
  "dll h p a xs = dlseg h p a xs NULL"

text \<open>\<open>free_list s xs\<close>: the free list of \<open>s\<close> is the well-linked list of nodes \<open>xs\<close>.\<close>

definition free_list :: "state \<Rightarrow> int list \<Rightarrow> bool" where
  "free_list s xs = dll (heap s) NULL (free_list_head s) xs"

fun no_adj_free :: "heap \<Rightarrow> int list \<Rightarrow> bool" where
  "no_adj_free h (x # y # xs) = (\<not> (is_free h x \<and> is_free h y) \<and> no_adj_free h (y # xs))"
| "no_adj_free h xs = True"

subsection \<open>Sequences of calls\<close>

datatype call = Alloc int | Free int

text \<open>What a call leaves behind; \<open>None\<close> when one of its loops does not terminate.\<close>

fun exec :: "call \<Rightarrow> state \<Rightarrow> state option" where
  "exec (Alloc n) s = map_option (\<lambda>r. snd (snd r)) (smalloc n s)"
| "exec (Free p) s = sfree p s"

fun run :: "state \<Rightarrow> call list \<Rightarrow> state option" where
  "run s [] = Some s"
| "run s (c # cs) = (case exec c s of None \<Rightarrow> None | Some s' \<Rightarrow> run s' cs)"

text \<open>
  The calls a caller may make. A payload size is not negative and small enough that
  \<^verbatim>\<open>hdr_size + payload_size\<close> and its rounding do not overflow an \<^verbatim>\<open>int\<close>. A released
  handle is null or points just past the header of a segment of the region.
\<close>

fun ok_call :: "state \<Rightarrow> call \<Rightarrow> bool" where
  "ok_call s (Alloc n) = (0 \<le> n \<and> n \<le> 2147483616)"
| "ok_call s (Free p) = (p = NULL \<or> p - hdr_size \<in> set (segments s))"

text \<open>
  A sequence of calls is valid when each call is one the caller may make in the state it
  is made in. A call that does not return leaves no later call to check.
\<close>

fun valid_trace :: "state \<Rightarrow> call list \<Rightarrow> bool" where
  "valid_trace s [] = True"
| "valid_trace s (c # cs) =
     (ok_call s c \<and> (case exec c s of None \<Rightarrow> True | Some s' \<Rightarrow> valid_trace s' cs))"

text \<open>
  A successful initialisation: \<open>my_init\<close> returned 0, for a requested size that is
  positive (\<^verbatim>\<open>mmap\<close> refuses a length that is not) and small enough that rounding it
  to pages does not overflow an \<^verbatim>\<open>int\<close>, and the address \<^verbatim>\<open>mmap\<close> returned is not
  null.
\<close>

definition init_ok :: "int \<Rightarrow> int \<Rightarrow> int \<Rightarrow> state \<Rightarrow> bool" where
  "init_ok region_size fd mapped s0 =
     (0 < region_size \<and> region_size \<le> 2147479552 \<and> 0 < mapped \<and>
      fst (my_init region_size fd mapped s0) = 0)"

definition init_state :: "int \<Rightarrow> int \<Rightarrow> int \<Rightarrow> state \<Rightarrow> state" where
  "init_state region_size fd mapped s0 = snd (my_init region_size fd mapped s0)"

text \<open>
  \<open>reaches \<dots> cs s\<close>: \<open>s\<close> is the state after a successful initialisation followed by
  the valid sequence of calls \<open>cs\<close>.
\<close>

definition reaches :: "int \<Rightarrow> int \<Rightarrow> int \<Rightarrow> state \<Rightarrow> call list \<Rightarrow> state \<Rightarrow> bool" where
  "reaches region_size fd mapped s0 cs s =
     (init_ok region_size fd mapped s0 \<and>
      valid_trace (init_state region_size fd mapped s0) cs \<and>
      run (init_state region_size fd mapped s0) cs = Some s)"

text \<open>The globals as the C file initialises them, over a store of zero bytes.\<close>

definition boot :: state where
  "boot = \<lparr>base_address = NULL, free_list_head = NULL, total_region = 0,
           heap = (\<lambda>a. \<lparr>seg_size = 0, in_use = 0, seg_next = NULL, seg_prev = NULL\<rparr>)\<rparr>"

subsection \<open>The first-fit search, described on the list of free segments\<close>

text \<open>
  The first node of \<open>fl\<close> that is large enough (\<open>NULL\<close> when there is none), and the
  number of nodes in front of it (all of them when there is none).
\<close>

definition first_fit :: "heap \<Rightarrow> int \<Rightarrow> int list \<Rightarrow> int" where
  "first_fit h n fl = (case dropWhile (\<lambda>x. seg_size (h x) < n) fl of [] \<Rightarrow> NULL | x # xs \<Rightarrow> x)"

definition inspected_before :: "heap \<Rightarrow> int \<Rightarrow> int list \<Rightarrow> int" where
  "inspected_before h n fl = int (length (takeWhile (\<lambda>x. seg_size (h x) < n) fl))"

text \<open>
  \<open>alignUp\<close> in the words of the specification: exact rounding up to a multiple of \<open>f\<close>,
  with no machine arithmetic.
\<close>

definition align_up :: "int \<Rightarrow> int \<Rightarrow> int" where
  "align_up x f = ((x + f - 1) div f) * f"

text \<open>
  The hop count in the words of the specification: the entries inspected up to and
  including the match, or the length of the list when nothing fits.
\<close>

definition hops_claimed :: "heap \<Rightarrow> int \<Rightarrow> int list \<Rightarrow> int" where
  "hops_claimed h n fl =
     (if first_fit h n fl \<noteq> NULL then inspected_before h n fl + 1 else int (length fl))"

subsection \<open>The invariant\<close>

text \<open>
  \<open>seg_inv s ss\<close>: the headers at \<open>ss\<close> tile the region, every size is a multiple of
  8, and the free list is exactly the free segments of \<open>ss\<close>, in address order. \<open>wf\<close>
  adds that no two neighbours are both free. \<open>fwd_merge\<close> and \<open>bwd_merge\<close> are the two
  halves of \<open>merge_adjacent\<close>, named for the proofs.
\<close>

definition seg_inv :: "state \<Rightarrow> int list \<Rightarrow> bool" where
  "seg_inv s ss =
     (0 < base_address s \<and> total_region s \<le> 2147483647 \<and>
      tiling (heap s) (base_address s) (base_address s + total_region s) ss \<and>
      free_list s (filter (is_free (heap s)) ss) \<and>
      (\<forall>x\<in>set ss. seg_size (heap s x) mod 8 = 0))"

definition fwd_merge :: "int \<Rightarrow> state \<Rightarrow> state" where
  "fwd_merge seg s0 =
     (let next_seg = seg + seg_size (heap s0 seg) in
      if next_seg < base_address s0 + total_region s0 \<and> in_use (heap s0 next_seg) = 0
      then (let s = remove_from_free_list next_seg s0 in
            set_seg_size seg (seg_size (heap s seg) + seg_size (heap s next_seg)) s)
      else s0)"

definition bwd_merge :: "int \<Rightarrow> state \<Rightarrow> (int \<times> state) option" where
  "bwd_merge seg s0 =
     (case find_prev (heap s0) seg (free_list_head s0) of
        None \<Rightarrow> None
      | Some prev_seg \<Rightarrow>
          if prev_seg \<noteq> NULL then
            (let s = remove_from_free_list prev_seg s0;
                 s = remove_from_free_list seg s;
                 s = set_seg_size prev_seg
                       (seg_size (heap s prev_seg) + seg_size (heap s seg)) s
             in case add_to_free_list prev_seg s of
                  None \<Rightarrow> None
                | Some s \<Rightarrow> Some (prev_seg, s))
          else Some (seg, s0))"

definition wf :: "state \<Rightarrow> int list \<Rightarrow> bool" where
  "wf s ss = (seg_inv s ss \<and> no_adj_free (heap s) ss)"

section \<open>Basic facts\<close>

lemma to_int32_id: "- 2147483648 \<le> x \<Longrightarrow> x \<le> 2147483647 \<Longrightarrow> to_int32 x = x"
  by (simp add: to_int32_def)

lemma to_int32_add_left: "to_int32 (to_int32 a + b) = to_int32 (a + b)"
  by (simp add: to_int32_def mod_simps algebra_simps)

lemma sub_add32: "sub32 (add32 a b) c = to_int32 (a + b - c)"
  using to_int32_add_left[of "a + b" "- c"] by (simp add: sub32_def add32_def)

lemma sub32_id: "0 \<le> b \<Longrightarrow> b \<le> a \<Longrightarrow> a \<le> 2147483647 \<Longrightarrow> sub32 a b = a - b"
  by (simp add: sub32_def to_int32_id)

lemma sdiv_nonneg: "0 \<le> a \<Longrightarrow> 0 < b \<Longrightarrow> (a::int) sdiv b = a div b"
  by (simp add: signed_divide_int_def sgn_if)

lemma align_value_pos:
  assumes "0 \<le> n" "0 < f" "n + f - 1 \<le> 2147483647"
  shows "align_value n f = ((n + f - 1) div f) * f"
proof -
  have 1: "sub32 (add32 n f) 1 = n + f - 1"
    using assms by (simp add: sub_add32 to_int32_id)
  have d1: "0 \<le> (n + f - 1) div f"
    using assms by (simp add: pos_imp_zdiv_nonneg_iff)
  have "0 \<le> (n + f - 1) mod f" using assms by simp
  then have d2: "(n + f - 1) div f * f \<le> n + f - 1"
    by (simp add: minus_mod_eq_div_mult[symmetric])
  have "(n + f - 1) div f \<le> (n + f - 1) div f * f"
    using d1 assms(2) by (simp add: mult_le_cancel_left1)
  then have 2: "div32 (n + f - 1) f = (n + f - 1) div f"
    using assms d1 d2 by (simp add: div32_def sdiv_nonneg to_int32_id)
  have p: "0 \<le> (n + f - 1) div f * f"
    using d1 assms(2) by simp
  have 3: "mul32 ((n + f - 1) div f) f = (n + f - 1) div f * f"
    unfolding mul32_def by (rule to_int32_id) (use p d2 assms(3) in linarith)+
  show ?thesis by (simp add: align_value_def 1 2 3)
qed

lemma align_value_bounds:
  assumes "0 \<le> n" "0 < f" "n + f - 1 \<le> 2147483647"
  shows "align_value n f mod f = 0" "n \<le> align_value n f" "align_value n f < n + f"
proof -
  have e: "align_value n f = (n + f - 1) - (n + f - 1) mod f"
    using assms by (simp add: align_value_pos minus_mod_eq_div_mult)
  have m: "0 \<le> (n + f - 1) mod f" "(n + f - 1) mod f < f"
    using assms by simp_all
  show "n \<le> align_value n f" "align_value n f < n + f"
    using e m by linarith+
  show "align_value n f mod f = 0"
    using assms by (simp add: align_value_pos)
qed

lemma required_size:
  assumes "0 \<le> n" "n \<le> 2147483616"
  shows "add32 hdr_size n = hdr_size + n"
    and "hdr_size + n \<le> align_value (hdr_size + n) 8"
    and "align_value (hdr_size + n) 8 mod 8 = 0"
    and "hdr_size \<le> align_value (hdr_size + n) 8"
proof -
  show "add32 hdr_size n = hdr_size + n"
    using assms by (simp add: add32_def to_int32_id hdr_size_def)
  show 2: "hdr_size + n \<le> align_value (hdr_size + n) 8"
    and "align_value (hdr_size + n) 8 mod 8 = 0"
    using align_value_bounds[of "hdr_size + n" 8] assms by (simp_all add: hdr_size_def)
  show "hdr_size \<le> align_value (hdr_size + n) 8" using 2 assms(1) by simp
qed

lemma dlseg_append:
  "dlseg h p a (xs @ ys) b = (\<exists>c. dlseg h p a xs c \<and> dlseg h (last (p # xs)) c ys b)"
  by (induction xs arbitrary: p a) auto

lemma dlseg_nonnull: "dlseg h p a xs b \<Longrightarrow> 0 \<notin> set xs"
  by (induction xs arbitrary: p a) auto

lemma dlseg_frame:
  "(\<And>x. x \<in> set xs \<Longrightarrow> seg_next (h' x) = seg_next (h x) \<and> seg_prev (h' x) = seg_prev (h x))
   \<Longrightarrow> dlseg h' p a xs b = dlseg h p a xs b"
  by (induction xs arbitrary: p a) auto

lemma tiling_append:
  "tiling h a e (xs @ ys) = (\<exists>m. tiling h a m xs \<and> tiling h m e ys)"
  by (induction xs arbitrary: a) auto

lemma tiling_frame:
  "(\<And>x. x \<in> set xs \<Longrightarrow> seg_size (h' x) = seg_size (h x)) \<Longrightarrow> tiling h' a e xs = tiling h a e xs"
  by (induction xs arbitrary: a) auto

lemma tiling_le: "tiling h a e xs \<Longrightarrow> a \<le> e"
proof (induction xs arbitrary: a)
  case (Cons x xs)
  then have "x + seg_size (h x) \<le> e" "a = x" "hdr_size \<le> seg_size (h x)" by auto
  then show ?case by (simp add: hdr_size_def)
qed simp

lemma tiling_bounds:
  "tiling h a e xs \<Longrightarrow> x \<in> set xs \<Longrightarrow> a \<le> x \<and> x + seg_size (h x) \<le> e \<and> hdr_size \<le> seg_size (h x)"
proof (induction xs arbitrary: a)
  case (Cons y ys)
  then have y: "a = y" "hdr_size \<le> seg_size (h y)" and t: "tiling h (y + seg_size (h y)) e ys" by auto
  show ?case
  proof (cases "x = y")
    case True
    then show ?thesis using y tiling_le[OF t] by simp
  next
    case False
    then have "x \<in> set ys" using Cons.prems by simp
    from Cons.IH[OF t this] show ?thesis using y by (simp add: hdr_size_def)
  qed
qed simp

lemma tiling_sorted: "tiling h a e xs \<Longrightarrow> sorted_wrt (<) xs"
  by (induction xs arbitrary: a) (auto simp: hdr_size_def dest: tiling_bounds)


lemma tiling_walk: "tiling h a e xs \<Longrightarrow> walk h a e = xs"
proof (induction xs arbitrary: a)
  case Nil then show ?case by simp
next
  case (Cons x xs)
  then have "a = x" "hdr_size \<le> seg_size (h x)" and t: "tiling h (x + seg_size (h x)) e xs" by auto
  moreover from t have "x + seg_size (h x) \<le> e" by (rule tiling_le)
  ultimately show ?case using Cons.IH[OF t] by (simp add: hdr_size_def)
qed



lemma set_seg_size_simps [simp]:
  "seg_size (heap (set_seg_size p v s) a) = (if a = p then v else seg_size (heap s a))"
  "in_use (heap (set_seg_size p v s) a) = in_use (heap s a)"
  "seg_next (heap (set_seg_size p v s) a) = seg_next (heap s a)"
  "seg_prev (heap (set_seg_size p v s) a) = seg_prev (heap s a)"
  "base_address (set_seg_size p v s) = base_address s"
  "free_list_head (set_seg_size p v s) = free_list_head s"
  "total_region (set_seg_size p v s) = total_region s"
  by (simp_all add: set_seg_size_def)

lemma set_in_use_simps [simp]:
  "seg_size (heap (set_in_use p v s) a) = seg_size (heap s a)"
  "in_use (heap (set_in_use p v s) a) = (if a = p then v else in_use (heap s a))"
  "seg_next (heap (set_in_use p v s) a) = seg_next (heap s a)"
  "seg_prev (heap (set_in_use p v s) a) = seg_prev (heap s a)"
  "base_address (set_in_use p v s) = base_address s"
  "free_list_head (set_in_use p v s) = free_list_head s"
  "total_region (set_in_use p v s) = total_region s"
  by (simp_all add: set_in_use_def)

lemma set_next_simps [simp]:
  "seg_size (heap (set_next p v s) a) = seg_size (heap s a)"
  "in_use (heap (set_next p v s) a) = in_use (heap s a)"
  "seg_next (heap (set_next p v s) a) = (if a = p then v else seg_next (heap s a))"
  "seg_prev (heap (set_next p v s) a) = seg_prev (heap s a)"
  "base_address (set_next p v s) = base_address s"
  "free_list_head (set_next p v s) = free_list_head s"
  "total_region (set_next p v s) = total_region s"
  by (simp_all add: set_next_def)

lemma set_prev_simps [simp]:
  "seg_size (heap (set_prev p v s) a) = seg_size (heap s a)"
  "in_use (heap (set_prev p v s) a) = in_use (heap s a)"
  "seg_next (heap (set_prev p v s) a) = seg_next (heap s a)"
  "seg_prev (heap (set_prev p v s) a) = (if a = p then v else seg_prev (heap s a))"
  "base_address (set_prev p v s) = base_address s"
  "free_list_head (set_prev p v s) = free_list_head s"
  "total_region (set_prev p v s) = total_region s"
  by (simp_all add: set_prev_def)

lemma set_head_simps [simp]:
  "heap (set_head v s) = heap s"
  "base_address (set_head v s) = base_address s"
  "free_list_head (set_head v s) = v"
  "total_region (set_head v s) = total_region s"
  by (simp_all add: set_head_def)

lemma remove_fields [simp]:
  "seg_size (heap (remove_from_free_list x s) a) = seg_size (heap s a)"
  "in_use (heap (remove_from_free_list x s) a) = in_use (heap s a)"
  "base_address (remove_from_free_list x s) = base_address s"
  "total_region (remove_from_free_list x s) = total_region s"
  by (simp_all add: remove_from_free_list_def Let_def)

lemma remove_head:
  assumes "dlseg (heap s) NULL (free_list_head s) (x # vs) b" "distinct (x # vs)" "b \<notin> set (x # vs)"
  shows "dlseg (heap (remove_from_free_list x s)) NULL (free_list_head (remove_from_free_list x s)) vs b"
proof (cases vs)
  case Nil
  then show ?thesis using assms by (simp add: remove_from_free_list_def Let_def)
next
  case (Cons v vs')
  let ?h = "heap (remove_from_free_list x s)"
  from assms Cons have f: "free_list_head s = x" "x \<noteq> 0" "seg_next (heap s x) = v" "v \<noteq> 0" "v \<noteq> x"
    "seg_prev (heap s v) = x" "dlseg (heap s) v (seg_next (heap s v)) vs' b" "x \<notin> set vs'" "v \<notin> set vs'"
    by auto
  have fr: "dlseg ?h v (seg_next (heap s v)) vs' b = dlseg (heap s) v (seg_next (heap s v)) vs' b"
    by (rule dlseg_frame) (use f in \<open>auto simp: remove_from_free_list_def Let_def\<close>)
  show ?thesis using f fr Cons
    by (simp add: remove_from_free_list_def Let_def)
qed


lemma remove_next_prev:
  assumes "x \<noteq> free_list_head s" "seg_prev (heap s x) = m" "m \<noteq> NULL" "m \<noteq> x" "seg_next (heap s x) = n"
  shows "seg_next (heap (remove_from_free_list x s) a) =
           (if a = x then NULL else if a = m then n else seg_next (heap s a))"
    and "seg_prev (heap (remove_from_free_list x s) a) =
           (if a = x then NULL else if a = n \<and> n \<noteq> NULL then m else seg_prev (heap s a))"
    and "free_list_head (remove_from_free_list x s) = free_list_head s"
  using assms by (simp_all add: remove_from_free_list_def Let_def)

lemma remove_inner:
  assumes "dlseg (heap s) NULL (free_list_head s) (us @ m # x # vs) NULL" "distinct (us @ m # x # vs)"
  shows "dlseg (heap (remove_from_free_list x s)) NULL (free_list_head (remove_from_free_list x s))
           (us @ m # vs) NULL"
proof -
  let ?h = "heap s" and ?s' = "remove_from_free_list x s"
  let ?n = "seg_next (?h x)"
  from assms(1) have nn: "0 \<notin> set (us @ m # x # vs)" by (rule dlseg_nonnull)
  from assms(1) have a: "dlseg ?h NULL (free_list_head s) us m" "seg_prev (?h m) = last (NULL # us)"
    "seg_next (?h m) = x" "seg_prev (?h x) = m" "dlseg ?h x ?n vs NULL"
    by (auto simp: dlseg_append)
  have hd: "x \<noteq> free_list_head s"
    using assms a(1) by (cases us) auto
  have mx: "m \<noteq> NULL" "m \<noteq> x" using nn assms(2) by auto
  note rw = remove_next_prev[OF hd a(4) mx refl]
  have nv: "?n = NULL \<or> ?n \<in> set vs" using a(5) by (cases vs) auto
  have 1: "dlseg (heap ?s') NULL (free_list_head s) us m = dlseg ?h NULL (free_list_head s) us m"
    by (rule dlseg_frame) (use assms(2) nv nn in \<open>auto simp: rw\<close>)
  have 2: "dlseg (heap ?s') m ?n vs NULL"
  proof (cases vs)
    case Nil then show ?thesis using a(5) by simp
  next
    case (Cons v vs')
    with a(5) have v: "?n = v" "v \<noteq> NULL" "seg_prev (?h v) = x" "dlseg ?h v (seg_next (?h v)) vs' NULL"
      by auto
    have "dlseg (heap ?s') v (seg_next (?h v)) vs' NULL = dlseg ?h v (seg_next (?h v)) vs' NULL"
      by (rule dlseg_frame) (use assms(2) Cons v in \<open>auto simp: rw\<close>)
    then show ?thesis using v Cons assms(2) by (auto simp: rw)
  qed
  have 3: "seg_prev (heap ?s' m) = last (NULL # us)" "seg_next (heap ?s' m) = ?n"
    using a(2) mx nv assms(2) by (auto simp: rw)
  show ?thesis using 1 2 3 a(1) mx by (simp add: dlseg_append rw)
qed

lemma remove_free_list:
  assumes "free_list s (us @ x # vs)" "distinct (us @ x # vs)"
  shows "free_list (remove_from_free_list x s) (us @ vs)"
proof (cases us rule: rev_cases)
  case Nil
  have "NULL \<notin> set (x # vs)" using assms(1) Nil dlseg_nonnull[of "heap s" NULL "free_list_head s" "x # vs" NULL]
    by (simp add: free_list_def dll_def)
  then show ?thesis using assms Nil remove_head[of s x vs NULL]
    by (simp add: free_list_def dll_def)
next
  case (snoc us' m)
  then show ?thesis using assms remove_inner[of s us' m x vs]
    by (simp add: free_list_def dll_def)
qed


lemma find_runner_dlseg:
  "dlseg h p a (us @ [m]) c \<Longrightarrow> \<forall>u\<in>set (us @ [m]). u < x \<Longrightarrow> c = NULL \<or> \<not> c < x
   \<Longrightarrow> find_runner h x a = Some m"
proof (induction us arbitrary: p a)
  case Nil
  then show ?case by (subst find_runner.simps) auto
next
  case (Cons u us)
  then have "a = u" "dlseg h u (seg_next (h u)) (us @ [m]) c" by auto
  moreover then have "seg_next (h u) \<noteq> NULL" "seg_next (h u) < x"
    using Cons.prems(2) by (cases us; auto)+
  ultimately show ?case using Cons.IH[of u "seg_next (h u)"] Cons.prems
    by (subst find_runner.simps) auto
qed

lemma add_fields:
  assumes "add_to_free_list x s = Some s'"
  shows "seg_size (heap s' a) = seg_size (heap s a)"
    and "in_use (heap s' a) = (if a = x then 0 else in_use (heap s a))"
    and "base_address s' = base_address s"
    and "total_region s' = total_region s"
  using assms by (auto simp: add_to_free_list_def Let_def split: if_splits option.splits)

lemma add_empty:
  assumes "free_list s []" "x \<noteq> NULL"
  shows "\<exists>s'. add_to_free_list x s = Some s' \<and> free_list s' [x]"
  using assms by (simp add: add_to_free_list_def Let_def free_list_def dll_def)

lemma add_front:
  assumes "free_list s (v # vs)" "x < v" "x \<noteq> NULL" "distinct (v # vs)" "\<forall>v\<in>set vs. x < v"
  shows "\<exists>s'. add_to_free_list x s = Some s' \<and> free_list s' (x # v # vs)"
proof -
  let ?s' = "let s = set_in_use x 0 s; s = set_next x (free_list_head s) s;
                  s = set_prev x NULL s;
                  s = set_prev (free_list_head s) x s;
                  s = set_head x s
              in s"
  from assms have f: "free_list_head s = v" "v \<noteq> NULL" "dlseg (heap s) v (seg_next (heap s v)) vs NULL"
    by (auto simp: free_list_def dll_def)
  have 1: "add_to_free_list x s = Some ?s'"
    using f assms by (simp add: add_to_free_list_def Let_def)
  have "dlseg (heap ?s') v (seg_next (heap s v)) vs NULL = dlseg (heap s) v (seg_next (heap s v)) vs NULL"
    by (rule dlseg_frame) (use assms f in \<open>auto simp: Let_def\<close>)
  then have "free_list ?s' (x # v # vs)"
    using f assms by (auto simp: free_list_def dll_def Let_def)
  with 1 show ?thesis by blast
qed

lemma add_after:
  assumes "free_list s (us @ m # vs)" "\<forall>u\<in>set (us @ [m]). u < x" "\<forall>v\<in>set vs. x < v" "x \<noteq> NULL"
    "distinct (us @ m # vs)"
  shows "\<exists>s'. add_to_free_list x s = Some s' \<and> free_list s' (us @ m # x # vs)"
proof -
  let ?s0 = "set_in_use x 0 s"
  let ?h = "heap s"
  let ?c = "seg_next (?h m)"
  define s' where "s' = (let s = set_next x (seg_next (heap ?s0 m)) ?s0;
                       s = (if seg_next (heap s m) \<noteq> NULL
                            then set_prev (seg_next (heap s m)) x s else s);
                       s = set_next m x s;
                       s = set_prev x m s
                   in s)"
  from assms(1) have nn: "0 \<notin> set (us @ m # vs)" unfolding free_list_def dll_def by (rule dlseg_nonnull)
  from assms(1) have a: "dlseg ?h NULL (free_list_head s) us m" "seg_prev (?h m) = last (NULL # us)"
    "dlseg ?h m ?c vs NULL" "dlseg ?h NULL (free_list_head s) (us @ [m]) ?c"
    by (auto simp: dlseg_append free_list_def dll_def)
  have c: "?c = NULL \<or> ?c \<in> set vs" using a(3) by (cases vs) auto
  have hd: "free_list_head s \<noteq> NULL" "free_list_head s < x"
    using assms a(1) nn by (cases us; auto)+
  have "dlseg (heap ?s0) NULL (free_list_head s) (us @ [m]) ?c = 
        dlseg ?h NULL (free_list_head s) (us @ [m]) ?c"
    by (rule dlseg_frame) simp
  then have "find_runner (heap ?s0) x (free_list_head s) = Some m"
    using find_runner_dlseg[of "heap ?s0" NULL "free_list_head s" us m ?c x] a(4) assms(2,3) c by auto
  then have 1: "add_to_free_list x s = Some s'"
    using hd by (simp add: add_to_free_list_def s'_def Let_def)
  have mx: "m \<noteq> x" "?c \<noteq> x" "?c \<noteq> m" using assms(2,3,4,5) c nn by auto
  have rw: "\<And>a. seg_next (heap s' a) = (if a = m then x else if a = x then ?c else seg_next (?h a))"
    "\<And>a. seg_prev (heap s' a) = (if a = x then m else if a = ?c \<and> ?c \<noteq> NULL then x else seg_prev (?h a))"
    "free_list_head s' = free_list_head s"
    using mx by (auto simp: s'_def Let_def)
  have 2: "dlseg (heap s') NULL (free_list_head s) us m = dlseg ?h NULL (free_list_head s) us m"
    by (rule dlseg_frame) (use assms c nn in \<open>auto simp: rw\<close>)
  have 3: "dlseg (heap s') x ?c vs NULL"
  proof (cases vs)
    case Nil then show ?thesis using a(3) by simp
  next
    case (Cons v vs')
    with a(3) have v: "?c = v" "v \<noteq> NULL" "dlseg ?h v (seg_next (?h v)) vs' NULL"
      by auto
    have "dlseg (heap s') v (seg_next (?h v)) vs' NULL = dlseg ?h v (seg_next (?h v)) vs' NULL"
      by (rule dlseg_frame) (use assms Cons v in \<open>auto simp: rw\<close>)
    then show ?thesis using v Cons assms by (auto simp: rw)
  qed
  have 4: "seg_prev (heap s' m) = last (NULL # us)"
    using a(2) mx c assms by (auto simp: rw)
  have "free_list s' (us @ m # x # vs)"
    unfolding free_list_def dll_def using 2 3 4 a(1) mx assms(4) nn by (simp add: dlseg_append rw)
  with 1 show ?thesis by blast
qed

lemma add_free_list:
  assumes "free_list s (us @ vs)" "\<forall>u\<in>set us. u < x" "\<forall>v\<in>set vs. x < v" "x \<noteq> NULL"
    "distinct (us @ vs)"
  shows "\<exists>s'. add_to_free_list x s = Some s' \<and> free_list s' (us @ x # vs)"
proof (cases us rule: rev_cases)
  case Nil
  then show ?thesis using assms add_empty[of s x] add_front[of s _ _ x]
    by (cases vs) auto
next
  case (snoc us' m)
  then show ?thesis using assms add_after[of s us' m vs x] by auto
qed

subsection \<open>The search\<close>

lemma search_loop_dlseg:
  "dlseg h p a fl NULL \<Longrightarrow>
   search_loop h n a k = Some (first_fit h n fl, k + inspected_before h n fl)"
proof (induction fl arbitrary: p a k)
  case Nil
  then show ?case by (subst search_loop.simps) (simp add: first_fit_def inspected_before_def)
next
  case (Cons x xs)
  then have x: "a = x" "x \<noteq> NULL" "dlseg h x (seg_next (h x)) xs NULL" by auto
  show ?case
  proof (cases "n \<le> seg_size (h x)")
    case True
    then show ?thesis using x by (subst search_loop.simps) (simp add: first_fit_def inspected_before_def)
  next
    case False
    then show ?thesis using x Cons.IH[OF x(3), of "k + 1"]
      by (subst search_loop.simps) (simp add: first_fit_def inspected_before_def)
  qed
qed

lemma search_for_fit_free_list:
  "free_list s fl \<Longrightarrow>
   search_for_fit n s = Some (first_fit (heap s) n fl, inspected_before (heap s) n fl)"
  using search_loop_dlseg[of "heap s" NULL "free_list_head s" fl n 0]
  by (simp add: search_for_fit_def free_list_def dll_def)

subsection \<open>Allocation and release preserve the invariant\<close>

lemma no_adj_free_cong:
  "(\<And>x. x \<in> set xs \<Longrightarrow> is_free h' x = is_free h x) \<Longrightarrow> no_adj_free h' xs = no_adj_free h xs"
  by (induction h xs rule: no_adj_free.induct) auto

lemma no_adj_free_mono:
  "(\<And>x. x \<in> set xs \<Longrightarrow> is_free h' x \<Longrightarrow> is_free h x) \<Longrightarrow> no_adj_free h xs
   \<Longrightarrow> no_adj_free h' xs"
  by (induction h xs rule: no_adj_free.induct) auto

lemma no_adj_free_Cons:
  "no_adj_free h (y # ys) = (no_adj_free h ys \<and> (ys \<noteq> [] \<longrightarrow> \<not> (is_free h y \<and> is_free h (hd ys))))"
  by (cases ys) auto

lemma no_adj_free_mid:
  "no_adj_free h (xs @ y # ys) =
     (no_adj_free h xs \<and> no_adj_free h ys \<and>
      (xs \<noteq> [] \<longrightarrow> \<not> (is_free h (last xs) \<and> is_free h y)) \<and>
      (ys \<noteq> [] \<longrightarrow> \<not> (is_free h y \<and> is_free h (hd ys))))"
proof (induction xs)
  case Nil
  show ?case by (simp add: no_adj_free_Cons)
next
  case (Cons x xs)
  show ?case using Cons by (cases xs) (auto simp: no_adj_free_Cons)
qed

lemma tiling_mid:
  assumes "tiling h a e (us @ x # vs)"
  shows "tiling h a x us" "hdr_size \<le> seg_size (h x)" "tiling h (x + seg_size (h x)) e vs"
    "\<And>u. u \<in> set us \<Longrightarrow> u + seg_size (h u) \<le> x \<and> u < x"
    "\<And>v. v \<in> set vs \<Longrightarrow> x + seg_size (h x) \<le> v \<and> x < v"
    "a \<le> x" "x + seg_size (h x) \<le> e"
proof -
  from assms show t: "tiling h a x us" "hdr_size \<le> seg_size (h x)" "tiling h (x + seg_size (h x)) e vs"
    by (auto simp: tiling_append)
  show "u + seg_size (h u) \<le> x \<and> u < x" if "u \<in> set us" for u
    using tiling_bounds[OF t(1) that] by (simp add: hdr_size_def)
  show "x + seg_size (h x) \<le> v \<and> x < v" if "v \<in> set vs" for v
    using tiling_bounds[OF t(3) that] t(2) by (simp add: hdr_size_def)
  show "a \<le> x" using tiling_le[OF t(1)] .
  show "x + seg_size (h x) \<le> e" using tiling_le[OF t(3)] .
qed

lemma tiling_distinct: "tiling h a e xs \<Longrightarrow> distinct xs"
  using tiling_sorted strict_sorted_iff by blast


lemma free_list_cong:
  "(\<And>a. seg_next (heap s' a) = seg_next (heap s a) \<and> seg_prev (heap s' a) = seg_prev (heap s a))
   \<Longrightarrow> free_list_head s' = free_list_head s \<Longrightarrow> free_list s' xs = free_list s xs"
  unfolding free_list_def dll_def by (simp add: dlseg_frame[of xs "heap s'" "heap s"])

lemma free_list_frame:
  "(\<And>a. a \<in> set xs \<Longrightarrow> seg_next (heap s' a) = seg_next (heap s a) \<and> seg_prev (heap s' a) = seg_prev (heap s a))
   \<Longrightarrow> free_list_head s' = free_list_head s \<Longrightarrow> free_list s' xs = free_list s xs"
  unfolding free_list_def dll_def by (simp add: dlseg_frame[of xs "heap s'" "heap s"])

lemma free_list_nonnull: "free_list s xs \<Longrightarrow> NULL \<notin> set xs"
  unfolding free_list_def dll_def by (rule dlseg_nonnull)

lemma filter_cong_set: "(\<And>x. x \<in> set xs \<Longrightarrow> P x = Q x) \<Longrightarrow> filter P xs = filter Q xs"
  by (induction xs) auto


lemma seg_inv_free_list_mid:
  assumes "seg_inv s (us @ t # vs)" "is_free (heap s) t"
  shows "free_list s (filter (is_free (heap s)) us @ t # filter (is_free (heap s)) vs)"
    and "distinct (filter (is_free (heap s)) us @ t # filter (is_free (heap s)) vs)"
proof -
  show "free_list s (filter (is_free (heap s)) us @ t # filter (is_free (heap s)) vs)"
    using assms by (simp add: seg_inv_def)
  from assms(1) have "tiling (heap s) (base_address s) (base_address s + total_region s) (us @ t # vs)"
    by (simp add: seg_inv_def)
  then have "distinct (us @ t # vs)" by (rule tiling_distinct)
  then have "distinct (filter (is_free (heap s)) (us @ t # vs))" by (rule distinct_filter)
  then show "distinct (filter (is_free (heap s)) us @ t # filter (is_free (heap s)) vs)"
    using assms(2) by simp
qed

lemma fit_search:
  assumes "seg_inv s (us @ t # vs)" "is_free (heap s) t" "R \<le> seg_size (heap s t)"
    "\<forall>u\<in>set us. is_free (heap s) u \<longrightarrow> seg_size (heap s u) < R"
  shows "search_for_fit R s = Some (t, int (length (filter (is_free (heap s)) us)))"
proof -
  let ?fu = "filter (is_free (heap s)) us" and ?fv = "filter (is_free (heap s)) vs"
  let ?P = "\<lambda>x. seg_size (heap s x) < R"
  have "dropWhile ?P (?fu @ t # ?fv) = dropWhile ?P (t # ?fv)"
    by (rule dropWhile_append2) (use assms(4) in auto)
  then have "dropWhile ?P (?fu @ t # ?fv) = t # ?fv"
    using assms(3) by simp
  moreover have "takeWhile ?P (?fu @ t # ?fv) = ?fu @ takeWhile ?P (t # ?fv)"
    by (rule takeWhile_append2) (use assms(4) in auto)
  then have "takeWhile ?P (?fu @ t # ?fv) = ?fu"
    using assms(3) by simp
  ultimately show ?thesis
    using search_for_fit_free_list[OF seg_inv_free_list_mid(1)[OF assms(1,2)], of R]
    by (simp add: first_fit_def inspected_before_def)
qed

lemma smalloc_fail:
  assumes "seg_inv s ss"
    "\<forall>x\<in>set ss. is_free (heap s) x \<longrightarrow> seg_size (heap s x) < align_value (hdr_size + n) 8"
    and n: "0 \<le> n" "n \<le> 2147483616"
  shows "smalloc n s = Some (NULL, alloc_failed, s)"
proof -
  let ?R = "align_value (hdr_size + n) 8"
  let ?fl = "filter (is_free (heap s)) ss"
  have "dropWhile (\<lambda>x. seg_size (heap s x) < ?R) ?fl = []" using assms(2) by simp
  then have "first_fit (heap s) ?R ?fl = NULL" unfolding first_fit_def by (simp only: list.case)
  moreover have "free_list s ?fl" "base_address s \<noteq> NULL" using assms(1) by (auto simp: seg_inv_def)
  ultimately show ?thesis
    using search_for_fit_free_list[of s ?fl ?R] by (simp add: smalloc_def required_size(1)[OF n])
qed

lemma smalloc_whole:
  assumes inv: "wf s (us @ t # vs)"
    and fit: "is_free (heap s) t" "R \<le> seg_size (heap s t)"
      "\<forall>u\<in>set us. is_free (heap s) u \<longrightarrow> seg_size (heap s u) < R"
    and R: "R = align_value (hdr_size + n) 8" and n: "0 \<le> n" "n \<le> 2147483616"
    and small: "\<not> hdr_size \<le> seg_size (heap s t) - R"
  shows "\<exists>s'. smalloc n s =
            Some (t + hdr_size,
                  \<lparr>success = 1, payload_offset = t + hdr_size - base_address s,
                   hops = int (length (filter (is_free (heap s)) us))\<rparr>, s') \<and>
          wf s' (us @ t # vs) \<and>
          base_address s' = base_address s \<and> total_region s' = total_region s \<and>
          (\<forall>a. seg_size (heap s' a) = seg_size (heap s a)) \<and>
          (\<forall>a. in_use (heap s' a) = (if a = t then 1 else in_use (heap s a)))"
proof -
  let ?h = "heap s"
  let ?fu = "filter (is_free ?h) us" and ?fv = "filter (is_free ?h) vs"
  define s' where "s' = set_in_use t 1 (remove_from_free_list t s)"
  from inv have si: "seg_inv s (us @ t # vs)" and na: "no_adj_free ?h (us @ t # vs)"
    by (auto simp: wf_def)
  from si have b: "0 < base_address s" "total_region s \<le> 2147483647"
    and til: "tiling ?h (base_address s) (base_address s + total_region s) (us @ t # vs)"
    by (auto simp: seg_inv_def)
  note tm = tiling_mid[OF til]
  have off: "(t + hdr_size - base_address s) mod 2 ^ 64 = t + hdr_size - base_address s"
    using tm(2,6,7) b by (simp add: hdr_size_def)
  have tnn: "t \<noteq> NULL" using tm(6) b by simp
  have "0 \<le> R" using required_size(4)[OF n] R by (simp add: hdr_size_def)
  moreover have "seg_size (?h t) \<le> 2147483647" using tm(6,7) b by simp
  ultimately have s32: "sub32 (seg_size (?h t)) R = seg_size (?h t) - R"
    using fit(2) by (simp add: sub32_id)
  have 1: "smalloc n s = Some (t + hdr_size,
                  \<lparr>success = 1, payload_offset = t + hdr_size - base_address s,
                   hops = int (length ?fu)\<rparr>, s')"
    using fit_search[OF si fit] small b R[symmetric] tnn off s32
    by (simp add: smalloc_def s'_def Let_def required_size(1)[OF n])
  have fl: "free_list (remove_from_free_list t s) (?fu @ ?fv)"
    using remove_free_list seg_inv_free_list_mid[OF si fit(1)] by blast
  have sz: "\<And>a. seg_size (heap s' a) = seg_size (?h a)"
    and iu: "\<And>a. in_use (heap s' a) = (if a = t then 1 else in_use (?h a))"
    and bt: "base_address s' = base_address s" "total_region s' = total_region s"
    by (simp_all add: s'_def)
  have d: "distinct (us @ t # vs)" using til by (rule tiling_distinct)
  have "filter (is_free (heap s')) us = ?fu" "filter (is_free (heap s')) vs = ?fv"
    by (rule filter_cong_set; use d in \<open>auto simp: is_free_def iu\<close>)+
  then have fr: "filter (is_free (heap s')) (us @ t # vs) = ?fu @ ?fv"
    by (simp add: is_free_def iu)
  have "free_list s' (?fu @ ?fv) = free_list (remove_from_free_list t s) (?fu @ ?fv)"
    by (rule free_list_cong) (simp_all add: s'_def)
  then have fl': "free_list s' (filter (is_free (heap s')) (us @ t # vs))"
    using fl fr by simp
  have til': "tiling (heap s') (base_address s') (base_address s' + total_region s') (us @ t # vs)"
    using til tiling_frame[of "us @ t # vs" "heap s'" ?h] by (simp add: sz bt)
  have al: "\<forall>x\<in>set (us @ t # vs). seg_size (heap s' x) mod 8 = 0"
    using si by (simp add: seg_inv_def sz)
  have na': "no_adj_free (heap s') (us @ t # vs)"
    by (rule no_adj_free_mono[OF _ na]) (simp add: is_free_def iu split: if_splits)
  have "wf s' (us @ t # vs)"
    unfolding wf_def seg_inv_def using b bt til' fl' al na' by simp
  with 1 sz iu bt show ?thesis by blast
qed


lemma smalloc_split:
  assumes inv: "wf s (us @ t # vs)"
    and fit: "is_free (heap s) t" "R \<le> seg_size (heap s t)"
      "\<forall>u\<in>set us. is_free (heap s) u \<longrightarrow> seg_size (heap s u) < R"
    and R: "R = align_value (hdr_size + n) 8" "0 \<le> n" "n \<le> 2147483616"
    and big: "hdr_size \<le> seg_size (heap s t) - R"
  shows "\<exists>s'. smalloc n s =
            Some (t + hdr_size,
                  \<lparr>success = 1, payload_offset = t + hdr_size - base_address s,
                   hops = int (length (filter (is_free (heap s)) us))\<rparr>, s') \<and>
          wf s' (us @ t # (t + R) # vs) \<and>
          base_address s' = base_address s \<and> total_region s' = total_region s \<and>
          (\<forall>a. seg_size (heap s' a) =
                 (if a = t then R else if a = t + R then seg_size (heap s t) - R
                  else seg_size (heap s a))) \<and>
          (\<forall>a. in_use (heap s' a) =
                 (if a = t then 1 else if a = t + R then 0 else in_use (heap s a)))"
proof -
  let ?h = "heap s"
  let ?fu = "filter (is_free ?h) us" and ?fv = "filter (is_free ?h) vs"
  let ?S = "seg_size (?h t)"
  define f where "f = t + R"
  define s1 where "s1 = remove_from_free_list t s"
  define s2 where "s2 = set_seg_size t R (set_next f NULL (set_prev f NULL
                          (set_in_use f 0 (set_seg_size f (?S - R) s1))))"
  from inv have si: "seg_inv s (us @ t # vs)" and na: "no_adj_free ?h (us @ t # vs)"
    by (auto simp: wf_def)
  from si have b: "0 < base_address s" "total_region s \<le> 2147483647"
    and til: "tiling ?h (base_address s) (base_address s + total_region s) (us @ t # vs)"
    and al: "\<forall>x\<in>set (us @ t # vs). seg_size (?h x) mod 8 = 0"
    by (auto simp: seg_inv_def)
  note tm = tiling_mid[OF til]
  have Rb: "hdr_size \<le> R" "R mod 8 = 0"
    using required_size(3,4)[OF R(2,3)] R(1) by simp_all
  have "seg_size (?h t) \<le> 2147483647" using tm(6,7) b by simp
  then have s32: "sub32 (seg_size (?h t)) R = seg_size (?h t) - R"
    using fit(2) Rb(1) by (simp add: sub32_id hdr_size_def)
  have off: "(t + hdr_size - base_address s) mod 2 ^ 64 = t + hdr_size - base_address s"
    using tm(2,6,7) b by (simp add: hdr_size_def)
  have tnn: "t \<noteq> NULL" "f \<noteq> NULL" "t < f" "f < t + ?S" "f \<noteq> t"
    using tm(6) b Rb big by (simp_all add: f_def hdr_size_def)
  have fnotin: "f \<notin> set us" "f \<notin> set vs"
    using tm(4,5) tnn by fastforce+
  have d: "distinct (us @ t # vs)" using til by (rule tiling_distinct)
  have fl1: "free_list s1 (?fu @ ?fv)"
    unfolding s1_def using remove_free_list seg_inv_free_list_mid[OF si fit(1)] by blast
  have "free_list s2 (?fu @ ?fv) = free_list s1 (?fu @ ?fv)"
    by (rule free_list_frame) (use fnotin in \<open>auto simp: s2_def\<close>)
  with fl1 have fl2: "free_list s2 (?fu @ ?fv)" by simp
  have "\<forall>u\<in>set ?fu. u < f" "\<forall>v\<in>set ?fv. f < v"
    using tm(4,5) tnn by fastforce+
  moreover have "distinct (?fu @ ?fv)" using d by auto
  ultimately obtain s3 where s3: "add_to_free_list f s2 = Some s3" "free_list s3 (?fu @ f # ?fv)"
    using add_free_list[OF fl2, of f] tnn(2) by blast
  note af = add_fields[OF s3(1)]
  define s' where "s' = set_in_use t 1 s3"
  have 1: "smalloc n s = Some (t + hdr_size,
                  \<lparr>success = 1, payload_offset = t + hdr_size - base_address s,
                   hops = int (length ?fu)\<rparr>, s')"
    using fit_search[OF si fit] big b R(1)[symmetric] tnn(1) off s3(1) af(3) s32
    by (simp add: smalloc_def s'_def s2_def s1_def f_def Let_def required_size(1)[OF R(2,3)])
  have sz: "\<And>a. seg_size (heap s' a) = (if a = t then R else if a = f then ?S - R else seg_size (?h a))"
    and iu: "\<And>a. in_use (heap s' a) = (if a = t then 1 else if a = f then 0 else in_use (?h a))"
    and bt: "base_address s' = base_address s" "total_region s' = total_region s"
    using tnn(5) by (auto simp: s'_def af s2_def s1_def)
  have "filter (is_free (heap s')) us = ?fu" "filter (is_free (heap s')) vs = ?fv"
    by (rule filter_cong_set; use d fnotin in \<open>auto simp: is_free_def iu\<close>)+
  then have fr: "filter (is_free (heap s')) (us @ t # f # vs) = ?fu @ f # ?fv"
    using tnn(5) by (simp add: is_free_def iu)
  have "free_list s' (?fu @ f # ?fv) = free_list s3 (?fu @ f # ?fv)"
    by (rule free_list_cong) (simp_all add: s'_def)
  then have fl': "free_list s' (filter (is_free (heap s')) (us @ t # f # vs))"
    using s3(2) fr by simp
  have "tiling (heap s') (base_address s) t us = tiling ?h (base_address s) t us"
    by (rule tiling_frame) (use d fnotin in \<open>auto simp: sz\<close>)
  moreover have "tiling (heap s') (t + ?S) (base_address s + total_region s) vs
               = tiling ?h (t + ?S) (base_address s + total_region s) vs"
    by (rule tiling_frame) (use d fnotin in \<open>auto simp: sz\<close>)
  ultimately have til': "tiling (heap s') (base_address s') (base_address s' + total_region s')
                           (us @ t # f # vs)"
    using tm(1,3) Rb big tnn(5) by (simp add: tiling_append sz bt f_def)
  have al': "\<forall>x\<in>set (us @ t # f # vs). seg_size (heap s' x) mod 8 = 0"
  proof -
    have "?S mod 8 = 0" using al by simp
    then have "(?S - R) mod 8 = 0" using Rb(2) by presburger
    then show ?thesis using al Rb(2) by (auto simp: sz)
  qed
  have na': "no_adj_free (heap s') (us @ t # f # vs)"
  proof -
    have "no_adj_free (heap s') us = no_adj_free ?h us" "no_adj_free (heap s') vs = no_adj_free ?h vs"
      by (rule no_adj_free_cong; use d fnotin in \<open>auto simp: is_free_def iu\<close>)+
    moreover have "vs \<noteq> [] \<Longrightarrow> \<not> is_free (heap s') (hd vs)"
      using na fit(1) d fnotin by (cases vs) (auto simp: no_adj_free_mid is_free_def iu)
    ultimately show ?thesis
      using na by (simp add: no_adj_free_mid no_adj_free_Cons) (simp add: is_free_def iu)
  qed
  have "wf s' (us @ t # f # vs)"
    unfolding wf_def seg_inv_def using b bt til' fl' al' na' by simp
  with 1 sz iu bt show ?thesis unfolding f_def by blast
qed


lemma merge_adjacent_alt: "merge_adjacent seg s = bwd_merge seg (fwd_merge seg s)"
  by (simp add: merge_adjacent_def bwd_merge_def fwd_merge_def Let_def)

lemma find_prev_none:
  "dlseg h p a xs NULL \<Longrightarrow> \<forall>y\<in>set xs. y + seg_size (h y) \<noteq> seg \<Longrightarrow> find_prev h seg a = Some NULL"
proof (induction xs arbitrary: p a)
  case Nil
  then show ?case by (subst find_prev.simps) simp
next
  case (Cons x xs)
  then show ?case by (subst find_prev.simps) auto
qed

lemma find_prev_found:
  "dlseg h p a (us @ t # vs) b \<Longrightarrow> \<forall>u\<in>set us. u + seg_size (h u) \<noteq> seg \<Longrightarrow>
   t + seg_size (h t) = seg \<Longrightarrow> find_prev h seg a = Some t"
proof (induction us arbitrary: p a)
  case Nil
  then show ?case by (subst find_prev.simps) simp
next
  case (Cons x xs)
  then show ?case by (subst find_prev.simps) auto
qed

lemma add_seg_inv:
  assumes si: "seg_inv s (us @ x # vs)" and used: "\<not> is_free (heap s) x"
  shows "\<exists>s1. add_to_free_list x s = Some s1 \<and> seg_inv s1 (us @ x # vs) \<and>
           base_address s1 = base_address s \<and> total_region s1 = total_region s \<and>
           (\<forall>a. seg_size (heap s1 a) = seg_size (heap s a)) \<and>
           (\<forall>a. in_use (heap s1 a) = (if a = x then 0 else in_use (heap s a)))"
proof -
  let ?h = "heap s"
  let ?fu = "filter (is_free ?h) us" and ?fv = "filter (is_free ?h) vs"
  from si have b: "0 < base_address s" "total_region s \<le> 2147483647"
    and til: "tiling ?h (base_address s) (base_address s + total_region s) (us @ x # vs)"
    and al: "\<forall>x\<in>set (us @ x # vs). seg_size (?h x) mod 8 = 0"
    and fl: "free_list s (?fu @ ?fv)"
    using used by (auto simp: seg_inv_def)
  note tm = tiling_mid[OF til]
  have d: "distinct (us @ x # vs)" using til by (rule tiling_distinct)
  have "\<forall>u\<in>set ?fu. u < x" "\<forall>v\<in>set ?fv. x < v" "x \<noteq> NULL" "distinct (?fu @ ?fv)"
    using tm(4,5,6) b d by auto
  then obtain s1 where s1: "add_to_free_list x s = Some s1" "free_list s1 (?fu @ x # ?fv)"
    using add_free_list[OF fl, of x] by blast
  note af = add_fields[OF s1(1)]
  have "filter (is_free (heap s1)) us = ?fu" "filter (is_free (heap s1)) vs = ?fv"
    by (rule filter_cong_set; use d in \<open>auto simp: is_free_def af\<close>)+
  then have "filter (is_free (heap s1)) (us @ x # vs) = ?fu @ x # ?fv"
    by (simp add: is_free_def af)
  moreover have "tiling (heap s1) (base_address s) (base_address s + total_region s) (us @ x # vs)"
    using til tiling_frame[of "us @ x # vs" "heap s1" ?h] by (simp add: af)
  ultimately have "seg_inv s1 (us @ x # vs)"
    unfolding seg_inv_def using b al s1(2) by (simp add: af)
  then show ?thesis using s1(1) af by auto
qed

lemma fwd_merge_none:
  assumes si: "seg_inv s (us @ x # vs)" and nf: "vs \<noteq> [] \<longrightarrow> \<not> is_free (heap s) (hd vs)"
  shows "fwd_merge x s = s"
proof (cases vs)
  case Nil
  with si show ?thesis by (simp add: seg_inv_def tiling_append fwd_merge_def)
next
  case (Cons n vs')
  with si nf show ?thesis by (simp add: seg_inv_def tiling_append fwd_merge_def is_free_def)
qed

lemma fwd_merge_some:
  assumes si: "seg_inv s (us @ x # n # vs)" and fx: "is_free (heap s) x" and fn: "is_free (heap s) n"
  shows "seg_inv (fwd_merge x s) (us @ x # vs)"
    and "base_address (fwd_merge x s) = base_address s"
    and "total_region (fwd_merge x s) = total_region s"
    and "\<And>a. seg_size (heap (fwd_merge x s) a) =
           (if a = x then seg_size (heap s x) + seg_size (heap s n) else seg_size (heap s a))"
    and "\<And>a. in_use (heap (fwd_merge x s) a) = in_use (heap s a)"
proof -
  let ?h = "heap s"
  let ?fu = "filter (is_free ?h) us" and ?fv = "filter (is_free ?h) vs"
  let ?s' = "fwd_merge x s"
  from si have b: "0 < base_address s" "total_region s \<le> 2147483647"
    and til: "tiling ?h (base_address s) (base_address s + total_region s) (us @ x # n # vs)"
    and al: "\<forall>x\<in>set (us @ x # n # vs). seg_size (?h x) mod 8 = 0"
    and fl: "free_list s ((?fu @ [x]) @ n # ?fv)"
    using fx fn by (auto simp: seg_inv_def)
  note tm = tiling_mid[OF til]
  have d: "distinct (us @ x # n # vs)" using til by (rule tiling_distinct)
  have n: "n = x + seg_size (?h x)" "hdr_size \<le> seg_size (?h n)"
    "tiling ?h (n + seg_size (?h n)) (base_address s + total_region s) vs"
    using tm(3) by auto
  have lt: "n < base_address s + total_region s"
    using tiling_le[OF n(3)] n(2) by (simp add: hdr_size_def)
  have e: "?s' = set_seg_size x (seg_size (?h x) + seg_size (?h n)) (remove_from_free_list n s)"
    using n(1) lt fn by (simp add: fwd_merge_def is_free_def Let_def)
  show sz: "\<And>a. seg_size (heap ?s' a) =
           (if a = x then seg_size (?h x) + seg_size (?h n) else seg_size (?h a))"
    and iu: "\<And>a. in_use (heap ?s' a) = in_use (?h a)"
    and bt: "base_address ?s' = base_address s" "total_region ?s' = total_region s"
    by (simp_all add: e)
  have "distinct ((?fu @ [x]) @ n # ?fv)" using d by auto
  from remove_free_list[OF fl this]
  have "free_list (remove_from_free_list n s) (?fu @ x # ?fv)" by simp
  moreover have "free_list ?s' (?fu @ x # ?fv) = free_list (remove_from_free_list n s) (?fu @ x # ?fv)"
    by (rule free_list_cong) (simp_all add: e)
  moreover have "is_free (heap ?s') = is_free ?h"
    by (rule ext) (simp add: is_free_def iu)
  then have "filter (is_free (heap ?s')) (us @ x # vs) = ?fu @ x # ?fv"
    using fx by simp
  ultimately have fl': "free_list ?s' (filter (is_free (heap ?s')) (us @ x # vs))" by simp
  have "tiling (heap ?s') (base_address s) x us = tiling ?h (base_address s) x us"
    by (rule tiling_frame) (use d in \<open>auto simp: sz\<close>)
  moreover have "tiling (heap ?s') (n + seg_size (?h n)) (base_address s + total_region s) vs
               = tiling ?h (n + seg_size (?h n)) (base_address s + total_region s) vs"
    by (rule tiling_frame) (use d in \<open>auto simp: sz\<close>)
  ultimately have til': "tiling (heap ?s') (base_address ?s') (base_address ?s' + total_region ?s')
                           (us @ x # vs)"
    using tm(1,2) n by (simp add: tiling_append sz bt hdr_size_def add.assoc)
  have al': "\<forall>a\<in>set (us @ x # vs). seg_size (heap ?s' a) mod 8 = 0"
  proof -
    have "seg_size (?h x) mod 8 = 0" "seg_size (?h n) mod 8 = 0" using al by simp_all
    then have "(seg_size (?h x) + seg_size (?h n)) mod 8 = 0" by presburger
    then show ?thesis using al by (auto simp: sz)
  qed
  show "seg_inv ?s' (us @ x # vs)"
    unfolding seg_inv_def using b bt til' fl' al' by simp
qed


lemma tiling_pred:
  assumes "tiling h a e (us @ x # vs)" "y \<in> set (us @ x # vs)" "y + seg_size (h y) = x"
  shows "us \<noteq> [] \<and> y = last us"
proof -
  note tm = tiling_mid[OF assms(1)]
  have "y \<noteq> x" using assms(3) tm(2) by (auto simp: hdr_size_def)
  moreover have "y \<notin> set vs" using assms(3) tm(5)[of y] tm(2) tiling_bounds[OF tm(3), of y]
    by (auto simp: hdr_size_def)
  ultimately have yu: "y \<in> set us" using assms(2) by auto
  then obtain us' p where us: "us = us' @ [p]" by (cases us rule: rev_cases) auto
  with assms(1) have t2: "tiling h a e (us' @ p # (x # vs))" by simp
  note tm2 = tiling_mid[OF t2]
  have "y \<notin> set us'" using tm2(4)[of y] tm2(5)[of x] assms(3) by auto
  then show ?thesis using yu us by auto
qed

lemma bwd_merge_none:
  assumes si: "seg_inv s (us @ x # vs)" and nf: "us \<noteq> [] \<longrightarrow> \<not> is_free (heap s) (last us)"
  shows "bwd_merge x s = Some (x, s)"
proof -
  let ?h = "heap s"
  let ?fl = "filter (is_free ?h) (us @ x # vs)"
  from si have til: "tiling ?h (base_address s) (base_address s + total_region s) (us @ x # vs)"
    and fl: "free_list s ?fl"
    by (auto simp: seg_inv_def)
  have "y + seg_size (?h y) \<noteq> x" if "y \<in> set ?fl" for y
  proof
    assume eq: "y + seg_size (?h y) = x"
    from that have y: "y \<in> set (us @ x # vs)" "is_free ?h y" by (auto split: if_splits)
    from tiling_pred[OF til y(1) eq] have "us \<noteq> []" "y = last us" by auto
    with nf y(2) show False by simp
  qed
  then have "find_prev ?h x (free_list_head s) = Some NULL"
    using fl find_prev_none[of ?h NULL "free_list_head s" ?fl x] by (simp add: free_list_def dll_def)
  then show ?thesis by (simp add: bwd_merge_def)
qed

lemma bwd_merge_some:
  assumes si: "seg_inv s (us @ p # x # vs)" and fp: "is_free (heap s) p" and fx: "is_free (heap s) x"
  shows "\<exists>s'. bwd_merge x s = Some (p, s') \<and> seg_inv s' (us @ p # vs) \<and>
           base_address s' = base_address s \<and> total_region s' = total_region s \<and>
           (\<forall>a. seg_size (heap s' a) =
                  (if a = p then seg_size (heap s p) + seg_size (heap s x) else seg_size (heap s a))) \<and>
           (\<forall>a. in_use (heap s' a) = in_use (heap s a))"
proof -
  let ?h = "heap s"
  let ?fu = "filter (is_free ?h) us" and ?fv = "filter (is_free ?h) vs"
  from si have b: "0 < base_address s" "total_region s \<le> 2147483647"
    and til: "tiling ?h (base_address s) (base_address s + total_region s) (us @ p # x # vs)"
    and al: "\<forall>x\<in>set (us @ p # x # vs). seg_size (?h x) mod 8 = 0"
    and fl: "free_list s (?fu @ p # x # ?fv)"
    using fp fx by (auto simp: seg_inv_def)
  note tm = tiling_mid[OF til]
  have d: "distinct (us @ p # x # vs)" using til by (rule tiling_distinct)
  have px: "p + seg_size (?h p) = x" "hdr_size \<le> seg_size (?h x)"
    "tiling ?h (x + seg_size (?h x)) (base_address s + total_region s) vs"
    using tm(3) by auto
  have pnn: "p \<noteq> NULL" using tm(6) b by simp
  have "\<forall>u\<in>set ?fu. u + seg_size (?h u) \<noteq> x"
    using tm(4) tm(5)[of x] by fastforce
  then have fp': "find_prev ?h x (free_list_head s) = Some p"
    using fl px(1) find_prev_found[of ?h NULL "free_list_head s" ?fu p "x # ?fv" NULL x]
    by (simp add: free_list_def dll_def)
  define sa where "sa = remove_from_free_list p s"
  define sb where "sb = remove_from_free_list x sa"
  define sc where "sc = set_seg_size p (seg_size (?h p) + seg_size (?h x)) sb"
  have dfl: "distinct (?fu @ p # x # ?fv)" using d by auto
  have fla: "free_list sa (?fu @ x # ?fv)"
    unfolding sa_def using remove_free_list[OF fl dfl] .
  have "distinct (?fu @ x # ?fv)" using dfl by auto
  from remove_free_list[OF fla this] have flb: "free_list sb (?fu @ ?fv)"
    unfolding sb_def .
  have "free_list sc (?fu @ ?fv) = free_list sb (?fu @ ?fv)"
    by (rule free_list_cong) (simp_all add: sc_def)
  with flb have flc: "free_list sc (?fu @ ?fv)" by simp
  have "\<forall>u\<in>set ?fu. u < p" "\<forall>v\<in>set ?fv. p < v" "distinct (?fu @ ?fv)"
    using tm(4,5) dfl by auto
  then obtain s' where s': "add_to_free_list p sc = Some s'" "free_list s' (?fu @ p # ?fv)"
    using add_free_list[OF flc, of p] pnn by blast
  note af = add_fields[OF s'(1)]
  have 1: "bwd_merge x s = Some (p, s')"
    using fp' pnn s'(1) by (simp add: bwd_merge_def Let_def sc_def sb_def sa_def)
  have sz: "\<And>a. seg_size (heap s' a) =
                  (if a = p then seg_size (?h p) + seg_size (?h x) else seg_size (?h a))"
    and iu: "\<And>a. in_use (heap s' a) = in_use (?h a)"
    and bt: "base_address s' = base_address s" "total_region s' = total_region s"
    using fp by (auto simp: af sc_def sb_def sa_def is_free_def)
  have "is_free (heap s') = is_free ?h"
    by (rule ext) (simp add: is_free_def iu)
  then have "filter (is_free (heap s')) (us @ p # vs) = ?fu @ p # ?fv"
    using fp by simp
  with s'(2) have fl': "free_list s' (filter (is_free (heap s')) (us @ p # vs))" by simp
  have "tiling (heap s') (base_address s) p us = tiling ?h (base_address s) p us"
    by (rule tiling_frame) (use d in \<open>auto simp: sz\<close>)
  moreover have "tiling ?h (p + (seg_size (?h p) + seg_size (?h x))) (base_address s + total_region s) vs"
    using px(3) unfolding px(1)[symmetric] by (simp add: add.assoc)
  moreover have "tiling (heap s') (p + (seg_size (?h p) + seg_size (?h x))) (base_address s + total_region s) vs
               = tiling ?h (p + (seg_size (?h p) + seg_size (?h x))) (base_address s + total_region s) vs"
    by (rule tiling_frame) (use d in \<open>auto simp: sz\<close>)
  ultimately have til': "tiling (heap s') (base_address s') (base_address s' + total_region s')
                           (us @ p # vs)"
    using tm(1,2) px(2) by (simp add: tiling_append sz bt hdr_size_def)
  have al': "\<forall>a\<in>set (us @ p # vs). seg_size (heap s' a) mod 8 = 0"
  proof -
    have "seg_size (?h p) mod 8 = 0" "seg_size (?h x) mod 8 = 0" using al by simp_all
    then have "(seg_size (?h p) + seg_size (?h x)) mod 8 = 0" by presburger
    then show ?thesis using al by (auto simp: sz)
  qed
  have "seg_inv s' (us @ p # vs)"
    unfolding seg_inv_def using b bt til' fl' al' by simp
  with 1 sz iu bt show ?thesis by blast
qed


lemma sfree_spec:
  assumes inv: "wf s (us @ x # vs)" and used: "\<not> is_free (heap s) x"
  shows "\<exists>s' vs'. sfree (x + hdr_size) s = Some s' \<and>
           base_address s' = base_address s \<and> total_region s' = total_region s \<and>
           (\<forall>a. in_use (heap s' a) = (if a = x then 0 else in_use (heap s a))) \<and>
           vs' = (if vs \<noteq> [] \<and> is_free (heap s) (hd vs) then tl vs else vs) \<and>
           (if us \<noteq> [] \<and> is_free (heap s) (last us)
            then wf s' (butlast us @ last us # vs')
            else wf s' (us @ x # vs') \<and>
                 (\<forall>a. a \<noteq> x \<longrightarrow> seg_size (heap s' a) = seg_size (heap s a)) \<and>
                 seg_size (heap s x) \<le> seg_size (heap s' x))"
proof -
  let ?h = "heap s"
  from inv have si: "seg_inv s (us @ x # vs)" and na: "no_adj_free ?h (us @ x # vs)"
    by (auto simp: wf_def)
  from si have b: "0 < base_address s"
    and til: "tiling ?h (base_address s) (base_address s + total_region s) (us @ x # vs)"
    by (auto simp: seg_inv_def)
  note tm = tiling_mid[OF til]
  have d: "distinct (us @ x # vs)" using til by (rule tiling_distinct)
  from na used have nau: "no_adj_free ?h us" and nav: "no_adj_free ?h vs"
    by (auto simp: no_adj_free_mid)
  \<comment> \<open>insertion into the free list\<close>
  from add_seg_inv[OF si used] obtain s1 where s1: "add_to_free_list x s = Some s1"
    "seg_inv s1 (us @ x # vs)" "base_address s1 = base_address s" "total_region s1 = total_region s"
    "\<And>a. seg_size (heap s1 a) = seg_size (?h a)"
    "\<And>a. in_use (heap s1 a) = (if a = x then 0 else in_use (?h a))"
    by blast
  have f1: "\<And>a. is_free (heap s1) a = (a = x \<or> is_free ?h a)"
    by (simp add: is_free_def s1(6))
  \<comment> \<open>the forward merge\<close>
  define vs' where "vs' = (if vs \<noteq> [] \<and> is_free ?h (hd vs) then tl vs else vs)"
  define s2 where "s2 = fwd_merge x s1"
  have s2: "seg_inv s2 (us @ x # vs') \<and> base_address s2 = base_address s \<and>
            total_region s2 = total_region s \<and>
            (\<forall>a. in_use (heap s2 a) = in_use (heap s1 a)) \<and>
            (\<forall>a. a \<noteq> x \<longrightarrow> seg_size (heap s2 a) = seg_size (?h a)) \<and>
            seg_size (?h x) \<le> seg_size (heap s2 x)"
  proof (cases "vs \<noteq> [] \<and> is_free ?h (hd vs)")
    case True
    then obtain n vs0 where vs: "vs = n # vs0" "is_free ?h n" by (cases vs) auto
    then have v: "vs' = vs0" by (simp add: vs'_def)
    have "is_free (heap s1) x" "is_free (heap s1) n" using vs f1 by auto
    from fwd_merge_some[OF s1(2)[unfolded vs] this] tm(3) show ?thesis
      unfolding s2_def v by (simp add: s1 vs hdr_size_def)
  next
    case False
    then have v: "vs' = vs" by (auto simp: vs'_def)
    have "vs \<noteq> [] \<longrightarrow> \<not> is_free (heap s1) (hd vs)"
      using False d f1 by (cases vs) auto
    from fwd_merge_none[OF s1(2) this] show ?thesis
      unfolding s2_def v by (simp add: s1)
  qed
  have f2: "\<And>a. is_free (heap s2) a = (a = x \<or> is_free ?h a)"
    using s2 by (simp add: is_free_def s1(6))
  have sub: "set vs' \<subseteq> set vs" by (cases vs) (auto simp: vs'_def)
  have nav': "no_adj_free ?h vs'" "vs' \<noteq> [] \<longrightarrow> \<not> is_free ?h (hd vs')"
    using nav by (cases vs; auto simp: vs'_def no_adj_free_Cons)+
  \<comment> \<open>the backward merge\<close>
  show ?thesis
  proof (cases "us \<noteq> [] \<and> is_free ?h (last us)")
    case True
    then obtain us0 p where us: "us = us0 @ [p]" "is_free ?h p" by (cases us rule: rev_cases) auto
    have "seg_inv s2 (us0 @ p # x # vs')" "is_free (heap s2) p" "is_free (heap s2) x"
      using s2 us f2 by auto
    from bwd_merge_some[OF this] obtain s3 where s3: "bwd_merge x s2 = Some (p, s3)"
      "seg_inv s3 (us0 @ p # vs')" "base_address s3 = base_address s2"
      "total_region s3 = total_region s2" "\<And>a. in_use (heap s3 a) = in_use (heap s2 a)"
      by blast
    have f3: "\<And>a. is_free (heap s3) a = (a = x \<or> is_free ?h a)"
      using f2 by (simp add: is_free_def s3(5))
    have "no_adj_free (heap s3) us0 = no_adj_free ?h us0" "no_adj_free (heap s3) vs' = no_adj_free ?h vs'"
      by (rule no_adj_free_cong; use d us sub in \<open>auto simp: f3\<close>)+
    moreover have "no_adj_free ?h us0" "us0 \<noteq> [] \<longrightarrow> \<not> is_free ?h (last us0)"
      using nau us by (auto simp: no_adj_free_mid)
    moreover have "us0 \<noteq> [] \<longrightarrow> last us0 \<noteq> x" "vs' \<noteq> [] \<longrightarrow> hd vs' \<noteq> x"
      using d us sub by (auto dest: last_in_set hd_in_set)
    ultimately have "no_adj_free (heap s3) (us0 @ p # vs')"
      using nav' by (simp add: no_adj_free_mid f3)
    then have "wf s3 (butlast us @ last us # vs')"
      using s3(2) us by (simp add: wf_def)
    moreover have "sfree (x + hdr_size) s = Some s3"
      using b tm(6) used s1(1) s3(1)
      by (simp add: sfree_def is_free_def merge_adjacent_alt s2_def hdr_size_def)
    ultimately show ?thesis using True s2 s3 s1(6) vs'_def by auto
  next
    case False
    then have nf: "us \<noteq> [] \<longrightarrow> \<not> is_free (heap s2) (last us)"
      using d f2 by (auto dest: last_in_set)
    from s2 have si2: "seg_inv s2 (us @ x # vs')" by simp
    note bm = bwd_merge_none[OF si2 nf]
    have "no_adj_free (heap s2) us = no_adj_free ?h us" "no_adj_free (heap s2) vs' = no_adj_free ?h vs'"
      by (rule no_adj_free_cong; use d sub in \<open>auto simp: f2\<close>)+
    moreover have "vs' \<noteq> [] \<longrightarrow> hd vs' \<noteq> x"
      using d sub by (auto dest: hd_in_set)
    ultimately have "no_adj_free (heap s2) (us @ x # vs')"
      using nau nav' nf by (simp add: no_adj_free_mid f2)
    then have "wf s2 (us @ x # vs')"
      using si2 by (simp add: wf_def)
    moreover have "sfree (x + hdr_size) s = Some s2"
      using b tm(6) used s1(1) bm
      by (simp add: sfree_def is_free_def merge_adjacent_alt s2_def hdr_size_def)
    ultimately show ?thesis using False s2 s1(6) vs'_def by auto
  qed
qed

subsection \<open>Reachable states\<close>

lemma wf_segments:
  assumes "wf s ss"
  shows "segments s = ss"
proof -
  from assms have "tiling (heap s) (base_address s) (base_address s + total_region s) ss"
    by (simp add: wf_def seg_inv_def)
  from tiling_walk[OF this] show ?thesis by (simp only: segments_def)
qed


lemma align_page:
  assumes "0 < rs" "rs \<le> 2147479552"
  shows "4096 \<le> align_value rs 4096" "align_value rs 4096 \<le> 2147483647"
    "align_value rs 4096 mod 8 = 0"
proof -
  have e: "align_value rs 4096 = (rs + 4095) div 4096 * 4096"
    using assms align_value_pos[of rs 4096] by simp
  have "0 < (rs + 4095) div 4096" using assms by (simp add: pos_imp_zdiv_pos_iff)
  then show "4096 \<le> align_value rs 4096" unfolding e by simp
  show "align_value rs 4096 \<le> 2147483647"
    using align_value_bounds(3)[of rs 4096] assms by simp
  have "(8::int) dvd 4096" by simp
  then have "8 dvd (rs + 4095) div 4096 * 4096" by (rule dvd_mult)
  then show "align_value rs 4096 mod 8 = 0" unfolding e by (simp only: mod_eq_0_iff_dvd)
qed

lemma init_wf:
  assumes "init_ok rs fd b s0"
  shows "wf (init_state rs fd b s0) [b]"
    and "base_address (init_state rs fd b s0) = b"
    and "total_region (init_state rs fd b s0) = align_value rs 4096"
proof -
  from assms have a: "0 < rs" "rs \<le> 2147479552" "0 < b" "\<not> fd < 0" "b \<noteq> - 1"
    by (auto simp: init_ok_def my_init_def Let_def split: if_splits)
  note ap = align_page[OF a(1,2)]
  let ?s = "init_state rs fd b s0"
  have f: "base_address ?s = b" "total_region ?s = align_value rs 4096" "free_list_head ?s = b"
    "seg_size (heap ?s b) = align_value rs 4096" "in_use (heap ?s b) = 0"
    "seg_next (heap ?s b) = NULL" "seg_prev (heap ?s b) = NULL"
    using a by (simp_all add: init_state_def my_init_def Let_def)
  show "base_address ?s = b" "total_region ?s = align_value rs 4096" by (fact f)+
  show "wf ?s [b]"
    unfolding wf_def seg_inv_def free_list_def dll_def
    using f a ap by (simp add: is_free_def hdr_size_def)
qed


lemma smalloc_cases:
  assumes inv: "wf s ss" and n: "0 \<le> n" "n \<le> 2147483616"
  defines "R \<equiv> align_value (hdr_size + n) 8"
  shows "((\<forall>x\<in>set ss. is_free (heap s) x \<longrightarrow> seg_size (heap s x) < R) \<and>
          smalloc n s = Some (NULL, alloc_failed, s)) \<or>
         (\<exists>us t vs s'. ss = us @ t # vs \<and> is_free (heap s) t \<and> R \<le> seg_size (heap s t) \<and>
            (\<forall>u\<in>set us. is_free (heap s) u \<longrightarrow> seg_size (heap s u) < R) \<and>
            smalloc n s =
              Some (t + hdr_size,
                    \<lparr>success = 1, payload_offset = t + hdr_size - base_address s,
                     hops = int (length (filter (is_free (heap s)) us))\<rparr>, s') \<and>
            base_address s' = base_address s \<and> total_region s' = total_region s \<and>
            (\<forall>a. in_use (heap s' a) =
                   (if a = t then 1
                    else if a = t + R \<and> hdr_size \<le> seg_size (heap s t) - R then 0
                    else in_use (heap s a))) \<and>
            (if hdr_size \<le> seg_size (heap s t) - R
             then wf s' (us @ t # (t + R) # vs) \<and>
                  (\<forall>a. seg_size (heap s' a) =
                         (if a = t then R else if a = t + R then seg_size (heap s t) - R
                          else seg_size (heap s a)))
             else wf s' ss \<and> (\<forall>a. seg_size (heap s' a) = seg_size (heap s a))))"
proof (cases "\<exists>x\<in>set ss. is_free (heap s) x \<and> R \<le> seg_size (heap s x)")
  case False
  then have a: "\<forall>x\<in>set ss. is_free (heap s) x \<longrightarrow> seg_size (heap s x) < R" by auto
  from inv have "seg_inv s ss" by (simp add: wf_def)
  from smalloc_fail[OF this a[unfolded R_def] n] a show ?thesis by (simp add: R_def)
next
  case True
  from split_list_first_prop[OF this] obtain us t vs where
    ss: "ss = us @ t # vs" and t: "is_free (heap s) t" "R \<le> seg_size (heap s t)"
    and us: "\<forall>u\<in>set us. \<not> (is_free (heap s) u \<and> R \<le> seg_size (heap s u))"
    by blast
  from us have us': "\<forall>u\<in>set us. is_free (heap s) u \<longrightarrow> seg_size (heap s u) < R" by auto
  have Re: "R = align_value (hdr_size + n) 8" by (simp add: R_def)
  show ?thesis
  proof (cases "hdr_size \<le> seg_size (heap s t) - R")
    case True
    from smalloc_split[OF inv[unfolded ss] t us' Re n True] obtain s' where
      "smalloc n s =
            Some (t + hdr_size,
                  \<lparr>success = 1, payload_offset = t + hdr_size - base_address s,
                   hops = int (length (filter (is_free (heap s)) us))\<rparr>, s')"
      "wf s' (us @ t # (t + R) # vs)"
      "base_address s' = base_address s" "total_region s' = total_region s"
      "\<forall>a. seg_size (heap s' a) =
                 (if a = t then R else if a = t + R then seg_size (heap s t) - R
                  else seg_size (heap s a))"
      "\<forall>a. in_use (heap s' a) =
                 (if a = t then 1 else if a = t + R then 0 else in_use (heap s a))"
      by blast
    with True ss t us' show ?thesis
      by (intro disjI2 exI[of _ us] exI[of _ t] exI[of _ vs] exI[of _ s']) simp
  next
    case False
    from smalloc_whole[OF inv[unfolded ss] t us' Re n False] obtain s' where
      "smalloc n s =
            Some (t + hdr_size,
                  \<lparr>success = 1, payload_offset = t + hdr_size - base_address s,
                   hops = int (length (filter (is_free (heap s)) us))\<rparr>, s')"
      "wf s' (us @ t # vs)"
      "base_address s' = base_address s" "total_region s' = total_region s"
      "\<forall>a. seg_size (heap s' a) = seg_size (heap s a)"
      "\<forall>a. in_use (heap s' a) = (if a = t then 1 else in_use (heap s a))"
      by blast
    with False ss t us' show ?thesis
      by (intro disjI2 exI[of _ us] exI[of _ t] exI[of _ vs] exI[of _ s']) simp
  qed
qed


lemma sfree_noop:
  "ptr = NULL \<or> base_address s = NULL \<or> in_use (heap s (ptr - hdr_size)) = 0 \<Longrightarrow> sfree ptr s = Some s"
  by (auto simp: sfree_def)

lemma sfree_wf:
  assumes inv: "wf s ss" and x: "x \<in> set ss" and used: "\<not> is_free (heap s) x"
  shows "\<exists>s' ss'. sfree (x + hdr_size) s = Some s' \<and> wf s' ss' \<and>
           base_address s' = base_address s \<and> total_region s' = total_region s \<and>
           (\<forall>a. in_use (heap s' a) = (if a = x then 0 else in_use (heap s a)))"
proof -
  from split_list[OF x] obtain us vs where ss: "ss = us @ x # vs" by blast
  from sfree_spec[OF inv[unfolded ss] used] obtain s' vs' where
    s': "sfree (x + hdr_size) s = Some s'"
    "base_address s' = base_address s" "total_region s' = total_region s"
    "\<forall>a. in_use (heap s' a) = (if a = x then 0 else in_use (heap s a))"
    "if us \<noteq> [] \<and> is_free (heap s) (last us)
     then wf s' (butlast us @ last us # vs')
     else wf s' (us @ x # vs') \<and>
          (\<forall>a. a \<noteq> x \<longrightarrow> seg_size (heap s' a) = seg_size (heap s a)) \<and>
          seg_size (heap s x) \<le> seg_size (heap s' x)"
    by blast
  from s'(5) have "\<exists>ss'. wf s' ss'" by (auto split: if_splits)
  with s'(1-4) show ?thesis by blast
qed

lemma exec_wf:
  assumes inv: "wf s ss" and ok: "ok_call s c"
  shows "\<exists>s' ss'. exec c s = Some s' \<and> wf s' ss' \<and>
           base_address s' = base_address s \<and> total_region s' = total_region s"
proof (cases c)
  case (Alloc n)
  with ok have n: "0 \<le> n" "n \<le> 2147483616" by simp_all
  from smalloc_cases[OF inv n] show ?thesis
  proof (elim disjE exE conjE)
    assume "smalloc n s = Some (NULL, alloc_failed, s)"
    then show ?thesis using inv Alloc by auto
  next
    fix us t vs s'
    assume a: "smalloc n s =
              Some (t + hdr_size,
                    \<lparr>success = 1, payload_offset = t + hdr_size - base_address s,
                     hops = int (length (filter (is_free (heap s)) us))\<rparr>, s')"
      "base_address s' = base_address s" "total_region s' = total_region s"
      "if hdr_size \<le> seg_size (heap s t) - align_value (hdr_size + n) 8
             then wf s' (us @ t # (t + align_value (hdr_size + n) 8) # vs) \<and>
                  (\<forall>a. seg_size (heap s' a) =
                         (if a = t then align_value (hdr_size + n) 8
                          else if a = t + align_value (hdr_size + n) 8
                          then seg_size (heap s t) - align_value (hdr_size + n) 8
                          else seg_size (heap s a)))
             else wf s' ss \<and> (\<forall>a. seg_size (heap s' a) = seg_size (heap s a))"
    from a(4) have "\<exists>ss'. wf s' ss'" by (auto split: if_splits)
    with a(1-3) Alloc show ?thesis by auto
  qed
next
  case (Free p)
  show ?thesis
  proof (cases "p = NULL \<or> is_free (heap s) (p - hdr_size)")
    case True
    then have "sfree p s = Some s" by (auto simp: is_free_def intro: sfree_noop)
    then show ?thesis using inv Free by auto
  next
    case False
    with ok Free have "p - hdr_size \<in> set ss" using wf_segments[OF inv] by simp
    from sfree_wf[OF inv this] False Free show ?thesis by auto
  qed
qed

lemma run_wf:
  "wf s ss \<Longrightarrow> valid_trace s cs \<Longrightarrow>
   \<exists>s' ss'. run s cs = Some s' \<and> wf s' ss' \<and>
     base_address s' = base_address s \<and> total_region s' = total_region s"
proof (induction cs arbitrary: s ss)
  case Nil
  then show ?case by auto
next
  case (Cons c cs)
  then have ok: "ok_call s c" by simp
  from exec_wf[OF Cons.prems(1) ok] obtain s1 ss1 where
    s1: "exec c s = Some s1" "wf s1 ss1" "base_address s1 = base_address s"
    "total_region s1 = total_region s" by blast
  with Cons.prems(2) have "valid_trace s1 cs" by simp
  from Cons.IH[OF s1(2) this] s1 show ?case by auto
qed

lemma reaches_wf:
  assumes "reaches rs fd b s0 cs s"
  shows "wf s (segments s)" "base_address s = b" "total_region s = align_value rs 4096"
proof -
  from assms have i: "init_ok rs fd b s0" and v: "valid_trace (init_state rs fd b s0) cs"
    and r: "run (init_state rs fd b s0) cs = Some s"
    by (auto simp: reaches_def)
  from run_wf[OF init_wf(1)[OF i] v] r obtain ss where
    ss: "wf s ss" "base_address s = base_address (init_state rs fd b s0)"
    "total_region s = total_region (init_state rs fd b s0)" by auto
  show "wf s (segments s)" using ss(1) wf_segments[OF ss(1)] by simp
  show "base_address s = b" "total_region s = align_value rs 4096"
    using ss(2,3) init_wf(2,3)[OF i] by simp_all
qed

lemma run_total:
  assumes "init_ok rs fd b s0" "valid_trace (init_state rs fd b s0) cs"
  shows "\<exists>s. reaches rs fd b s0 cs s"
  using run_wf[OF init_wf(1)[OF assms(1)] assms(2)] assms by (auto simp: reaches_def)

lemma reaches_the:
  assumes "init_ok rs fd b s0" "valid_trace (init_state rs fd b s0) cs"
  shows "reaches rs fd b s0 cs (the (run (init_state rs fd b s0) cs))"
  using run_total[OF assms] by (auto simp: reaches_def)






lemma tiling_last:
  "tiling h a e xs \<Longrightarrow> xs \<noteq> [] \<Longrightarrow> last xs + seg_size (h (last xs)) = e"
  by (induction xs arbitrary: a) auto

text \<open>
  Inside the range of payload sizes whose arithmetic does not overflow, a request that no
  free segment of a reachable state can hold fails and leaves the state as it was.
\<close>

lemma smalloc_no_fit_in_range:
  assumes "reaches rs fd b s0 cs s" and "0 \<le> n" "n \<le> 2147483616"
    and "\<forall>a\<in>set (segments s).
           is_free (heap s) a \<longrightarrow> seg_size (heap s a) < align_value (hdr_size + n) 8"
  shows "smalloc n s = Some (NULL, \<lparr>success = 0, payload_offset = - 1, hops = - 1\<rparr>, s)"
proof -
  from reaches_wf(1)[OF assms(1)] have "seg_inv s (segments s)" by (simp add: wf_def)
  from smalloc_fail[OF this assms(4,2,3)] show ?thesis by (simp add: alloc_failed_def)
qed


text \<open>
  The guards of \<open>smalloc\<close> and \<open>sfree\<close>. While the base address is \<open>NULL\<close> (before
  initialisation) \<open>smalloc\<close> returns \<open>NULL\<close> with the status \<open>success = 0\<close>,
  \<open>payload_offset = -1\<close>, \<open>hops = -1\<close> and \<open>sfree\<close> returns, both without changing the
  state. \<open>sfree NULL\<close> changes nothing in any state. \<open>sfree\<close> of a handle whose header
  reads as free changes nothing, and so does a second \<open>sfree\<close> of a handle right after
  the first. What a later second \<open>sfree\<close> does, once allocations have reused the bytes of
  the old header, is not decided by this store of whole headers: there the C code reads
  \<open>in_use\<close> from bytes that may now belong to the \<open>next\<close> pointer of a newer header.
\<close>

lemma guards_are_silent:
  "(base_address u = NULL \<longrightarrow>
      smalloc n u = Some (NULL, \<lparr>success = 0, payload_offset = - 1, hops = - 1\<rparr>, u) \<and>
      sfree q u = Some u) \<and>
   sfree NULL u = Some u \<and>
   (in_use (heap v (q - hdr_size)) = 0 \<longrightarrow> sfree q v = Some v) \<and>
   (reaches rs fd b s0 cs s \<and> p - hdr_size \<in> set (segments s) \<and>
    in_use (heap s (p - hdr_size)) \<noteq> 0 \<longrightarrow>
      (\<exists>s'. sfree p s = Some s' \<and> sfree p s' = Some s'))"
proof -
  have 1: "base_address u = NULL \<longrightarrow>
      smalloc n u = Some (NULL, \<lparr>success = 0, payload_offset = - 1, hops = - 1\<rparr>, u) \<and>
      sfree q u = Some u"
    by (simp add: smalloc_def alloc_failed_def sfree_noop)
  have 2: "sfree NULL u = Some u" by (simp add: sfree_noop)
  have 3: "in_use (heap v (q - hdr_size)) = 0 \<longrightarrow> sfree q v = Some v" by (simp add: sfree_noop)
  have 4: "\<exists>s'. sfree p s = Some s' \<and> sfree p s' = Some s'"
    if r: "reaches rs fd b s0 cs s" and m: "p - hdr_size \<in> set (segments s)"
      and u: "in_use (heap s (p - hdr_size)) \<noteq> 0"
  proof -
    have "\<not> is_free (heap s) (p - hdr_size)" using u by (simp add: is_free_def)
    from sfree_wf[OF reaches_wf(1)[OF r] m this] obtain s' where
      s': "sfree p s = Some s'"
      "\<forall>a. in_use (heap s' a) = (if a = p - hdr_size then 0 else in_use (heap s a))"
      by auto
    from s'(2) have "sfree p s' = Some s'" by (simp add: sfree_noop)
    with s'(1) show ?thesis by blast
  qed
  from 1 2 3 4 show ?thesis by blast
qed

lemma guards_are_silent_example:
  "base_address boot = NULL \<and>
   smalloc 10 boot = Some (NULL, \<lparr>success = 0, payload_offset = - 1, hops = - 1\<rparr>, boot) \<and>
   sfree 65560 boot = Some boot \<and>
   sfree NULL boot = Some boot \<and>
   in_use (heap (init_state 4096 3 65536 boot) (65560 - hdr_size)) = 0 \<and>
   sfree 65560 (init_state 4096 3 65536 boot) = Some (init_state 4096 3 65536 boot) \<and>
   reaches 4096 3 65536 boot [Alloc 100] (the (run (init_state 4096 3 65536 boot) [Alloc 100])) \<and>
   65560 - hdr_size \<in> set (segments (the (run (init_state 4096 3 65536 boot) [Alloc 100]))) \<and>
   in_use (heap (the (run (init_state 4096 3 65536 boot) [Alloc 100])) (65560 - hdr_size)) = 1 \<and>
   (\<exists>s'. sfree 65560 (the (run (init_state 4096 3 65536 boot) [Alloc 100])) = Some s' \<and>
         sfree 65560 s' = Some s')"
proof -
  let ?s = "the (run (init_state 4096 3 65536 boot) [Alloc 100])"
  have i: "init_ok 4096 3 65536 boot" by code_simp
  have v: "valid_trace (init_state 4096 3 65536 boot) [Alloc 100]" by code_simp
  note r = reaches_the[OF i v]
  have h: "base_address boot = NULL"
    "in_use (heap (init_state 4096 3 65536 boot) (65560 - hdr_size)) = 0"
    "65560 - hdr_size \<in> set (segments ?s)"
    "in_use (heap ?s (65560 - hdr_size)) = 1"
    by code_simp+
  from guards_are_silent[of boot 10 65560 "init_state 4096 3 65536 boot" 4096 3 65536 boot
      "[Alloc 100]" ?s 65560] r h
  show ?thesis by simp
qed

section \<open>The claims\<close>

text \<open>
  C3, as the code has it. Whenever the free list of a state is the well-linked list
  \<open>fl\<close>, the first-fit search terminates and returns the first entry of \<open>fl\<close> that is
  large enough together with the number of entries in front of it: the match itself is
  not counted. When no entry fits it returns \<open>NULL\<close> and the length of the whole list
  (\<open>inspected_before\<close> is that length then).
\<close>

theorem search_for_fit_hops:
  "free_list s fl \<Longrightarrow>
   search_for_fit n s = Some (first_fit (heap s) n fl, inspected_before (heap s) n fl) \<and>
   (first_fit (heap s) n fl = NULL \<longrightarrow> inspected_before (heap s) n fl = int (length fl))"
proof -
  assume f: "free_list s fl"
  let ?P = "\<lambda>x. seg_size (heap s x) < n"
  have nn: "NULL \<notin> set fl"
    using f dlseg_nonnull[of "heap s" NULL "free_list_head s" fl NULL]
    by (simp add: free_list_def dll_def)
  have "inspected_before (heap s) n fl = int (length fl)" if "first_fit (heap s) n fl = NULL"
  proof -
    have "takeWhile ?P fl = fl"
    proof (cases "dropWhile ?P fl")
      case Nil
      then show ?thesis by simp
    next
      case (Cons x xs)
      then have "x \<in> set fl" by (metis list.set_intros(1) set_dropWhileD)
      moreover have "x = NULL" using that Cons by (simp add: first_fit_def)
      ultimately show ?thesis using nn by simp
    qed
    from arg_cong[OF this, of "\<lambda>l. int (length l)"] show ?thesis
      unfolding inspected_before_def .
  qed
  then show ?thesis
    using search_for_fit_free_list[OF f, of n] by simp
qed

theorem search_for_fit_hops_witness:
  "free_list (init_state 4096 3 65536 boot) [65536] \<and>
   search_for_fit 128 (init_state 4096 3 65536 boot) = Some (65536, 0)"
proof -
  have f: "free_list (init_state 4096 3 65536 boot) [65536]" by code_simp
  have "first_fit (heap (init_state 4096 3 65536 boot)) 128 [65536] = 65536" by code_simp
  moreover have "inspected_before (heap (init_state 4096 3 65536 boot)) 128 [65536] = 0" by code_simp
  ultimately show ?thesis using search_for_fit_hops[OF f, of 128] f by simp
qed

text \<open>
  C3 as stated fails on a fresh region: the only free segment matches at once, the search
  reports 0 hops, and the count that includes the match is 1.
\<close>

theorem hops_inclusive_counterexample:
  "free_list (init_state 4096 3 65536 boot) [65536] \<and>
   search_for_fit 128 (init_state 4096 3 65536 boot) = Some (65536, 0) \<and>
   hops_claimed (heap (init_state 4096 3 65536 boot)) 128 [65536] = 1"
  by code_simp





text \<open>
  C4 fails on the code for a request so large that the arithmetic on its size overflows.
  A fresh region of 4096 bytes has one free segment of 4096 bytes, and a request of
  2147483617 bytes needs \<open>alignUp (hdr_size + 2147483617, 8) = 2147483648\<close> bytes, which
  no segment has. Yet \<open>smalloc\<close> succeeds: the rounding wraps around, the required size
  it computes is \<open>-2147483648\<close>, the head segment passes the size test, and it is handed
  out whole with \<open>success = 1\<close> and payload offset 24.
\<close>

theorem oversized_request_succeeds:
  "segments (init_state 4096 3 65536 boot) = [65536] \<and>
   is_free (heap (init_state 4096 3 65536 boot)) 65536 \<and>
   seg_size (heap (init_state 4096 3 65536 boot) 65536) = 4096 \<and>
   align_up (hdr_size + 2147483617) 8 = 2147483648 \<and>
   align_value (add32 hdr_size 2147483617) 8 = - 2147483648 \<and>
   map_option fst (smalloc 2147483617 (init_state 4096 3 65536 boot)) = Some 65560 \<and>
   map_option (fst \<circ> snd) (smalloc 2147483617 (init_state 4096 3 65536 boot)) =
     Some \<lparr>success = 1, payload_offset = 24, hops = 0\<rparr> \<and>
   map_option (in_use \<circ> (\<lambda>s. heap s 65536) \<circ> snd \<circ> snd)
     (smalloc 2147483617 (init_state 4096 3 65536 boot)) = Some 1"
  by code_simp






text \<open>
  C10. In a reachable state that has a free segment of at least \<open>align_value hdr_size 8\<close>
  bytes, \<open>smalloc 0\<close> succeeds: it returns a pointer that is not null with
  \<open>success = 1\<close>, the segment it names is marked in use, and when the split path is taken
  that segment has size exactly \<open>align_value hdr_size 8\<close>.
\<close>

theorem alloc_zero_accepted:
  assumes "reaches rs fd b s0 cs s"
    and "a \<in> set (segments s)" "is_free (heap s) a" "align_value hdr_size 8 \<le> seg_size (heap s a)"
  shows "\<exists>p st s'. smalloc 0 s = Some (p, st, s') \<and> p \<noteq> NULL \<and> success st = 1 \<and>
           in_use (heap s' (p - hdr_size)) = 1 \<and>
           (hdr_size \<le> seg_size (heap s (p - hdr_size)) - align_value hdr_size 8 \<longrightarrow>
              seg_size (heap s' (p - hdr_size)) = align_value hdr_size 8)"
proof -
  note w = reaches_wf(1)[OF assms(1)]
  from w have til: "tiling (heap s) (base_address s) (base_address s + total_region s) (segments s)"
    and b: "0 < base_address s"
    by (simp_all add: wf_def seg_inv_def)
  have z: "(0::int) \<le> 0" "(0::int) \<le> 2147483616" by simp_all
  from smalloc_cases[OF w z] show ?thesis
  proof (elim disjE exE conjE)
    assume "\<forall>x\<in>set (segments s). is_free (heap s) x \<longrightarrow> seg_size (heap s x) < align_value (hdr_size + 0) 8"
    with assms(2-4) show ?thesis by auto
  next
    fix us t vs s'
    assume c: "segments s = us @ t # vs"
      "smalloc 0 s =
              Some (t + hdr_size,
                    \<lparr>success = 1, payload_offset = t + hdr_size - base_address s,
                     hops = int (length (filter (is_free (heap s)) us))\<rparr>, s')"
      "\<forall>a. in_use (heap s' a) =
                   (if a = t then 1
                    else if a = t + align_value (hdr_size + 0) 8 \<and>
                            hdr_size \<le> seg_size (heap s t) - align_value (hdr_size + 0) 8 then 0
                    else in_use (heap s a))"
      "if hdr_size \<le> seg_size (heap s t) - align_value (hdr_size + 0) 8
             then wf s' (us @ t # (t + align_value (hdr_size + 0) 8) # vs) \<and>
                  (\<forall>a. seg_size (heap s' a) =
                         (if a = t then align_value (hdr_size + 0) 8
                          else if a = t + align_value (hdr_size + 0) 8
                          then seg_size (heap s t) - align_value (hdr_size + 0) 8
                          else seg_size (heap s a)))
             else wf s' (segments s) \<and> (\<forall>a. seg_size (heap s' a) = seg_size (heap s a))"
    note tm = tiling_mid[OF til[unfolded c(1)]]
    have "t + hdr_size \<noteq> NULL" using tm(6) b by (simp add: hdr_size_def)
    moreover have "hdr_size \<le> seg_size (heap s t) - align_value hdr_size 8 \<longrightarrow>
              seg_size (heap s' t) = align_value hdr_size 8"
      using c(4) by simp
    ultimately show ?thesis using c(2,3) by simp
  qed
qed

theorem alloc_zero_accepted_witness:
  "reaches 4096 3 65536 boot [] (init_state 4096 3 65536 boot) \<and>
   65536 \<in> set (segments (init_state 4096 3 65536 boot)) \<and>
   is_free (heap (init_state 4096 3 65536 boot)) 65536 \<and>
   align_value hdr_size 8 \<le> seg_size (heap (init_state 4096 3 65536 boot) 65536) \<and>
   (\<exists>p st s'. smalloc 0 (init_state 4096 3 65536 boot) = Some (p, st, s') \<and>
       p \<noteq> NULL \<and> success st = 1)"
proof -
  let ?s = "init_state 4096 3 65536 boot"
  have i: "init_ok 4096 3 65536 boot" by code_simp
  have r: "reaches 4096 3 65536 boot [] ?s" using i by (simp add: reaches_def)
  have h: "65536 \<in> set (segments ?s)" "is_free (heap ?s) 65536"
    "align_value hdr_size 8 \<le> seg_size (heap ?s 65536)"
    by code_simp+
  from alloc_zero_accepted[OF r h] r h show ?thesis by blast
qed



text \<open>
  C8, as the code has it. Let \<open>p\<close> be the handle of an in-use segment of a reachable
  state and \<open>n\<close> a payload size whose required size fits in that segment. If no free
  segment at a lower address is large enough for the request, and the segment that ends
  where the segment of \<open>p\<close> starts is not free, then \<open>sfree p\<close> followed at once by
  \<open>smalloc n\<close> succeeds and returns \<open>p\<close> again, with the payload offset \<open>p\<close> had.
\<close>

theorem free_then_alloc_reuses:
  assumes r: "reaches rs fd b s0 cs s"
    and m: "p - hdr_size \<in> set (segments s)" and u: "in_use (heap s (p - hdr_size)) \<noteq> 0"
    and n: "0 \<le> n" "n \<le> 2147483616"
    and fits: "align_value (hdr_size + n) 8 \<le> seg_size (heap s (p - hdr_size))"
    and lower: "\<forall>a\<in>set (segments s). a < p - hdr_size \<longrightarrow> is_free (heap s) a \<longrightarrow>
                  seg_size (heap s a) < align_value (hdr_size + n) 8"
    and pred: "\<forall>a\<in>set (segments s). a + seg_size (heap s a) = p - hdr_size \<longrightarrow>
                  \<not> is_free (heap s) a"
  shows "\<exists>s1 st s2. sfree p s = Some s1 \<and> smalloc n s1 = Some (p, st, s2) \<and>
           success st = 1 \<and> payload_offset st = p - base_address s"
proof -
  let ?x = "p - hdr_size" and ?R = "align_value (hdr_size + n) 8"
  note w = reaches_wf(1)[OF r]
  from split_list[OF m] obtain us vs where ss: "segments s = us @ ?x # vs" by blast
  from w have til: "tiling (heap s) (base_address s) (base_address s + total_region s) (us @ ?x # vs)"
    by (simp add: wf_def seg_inv_def ss)
  note tm = tiling_mid[OF til]
  have used: "\<not> is_free (heap s) ?x" using u by (simp add: is_free_def)
  have nb: "\<not> (us \<noteq> [] \<and> is_free (heap s) (last us))"
  proof
    assume a: "us \<noteq> [] \<and> is_free (heap s) (last us)"
    then have "last us + seg_size (heap s (last us)) = ?x" using tiling_last[OF tm(1)] by simp
    moreover have "last us \<in> set (segments s)" using a ss by simp
    ultimately show False using pred a by blast
  qed
  from sfree_spec[OF w[unfolded ss] used] nb obtain s1 vs' where
    s1: "sfree p s = Some s1" "base_address s1 = base_address s"
    "\<forall>a. in_use (heap s1 a) = (if a = ?x then 0 else in_use (heap s a))"
    "wf s1 (us @ ?x # vs')"
    "\<forall>a. a \<noteq> ?x \<longrightarrow> seg_size (heap s1 a) = seg_size (heap s a)"
    "seg_size (heap s ?x) \<le> seg_size (heap s1 ?x)"
    by auto
  have f1: "is_free (heap s1) ?x" using s1(3) by (simp add: is_free_def)
  have f2: "?R \<le> seg_size (heap s1 ?x)" using fits s1(6) by simp
  have f3: "\<forall>a\<in>set us. is_free (heap s1) a \<longrightarrow> seg_size (heap s1 a) < ?R"
  proof (intro ballI impI)
    fix a assume a: "a \<in> set us" "is_free (heap s1) a"
    then have lt: "a < ?x" using tm(4) by blast
    then have "is_free (heap s) a" "seg_size (heap s1 a) = seg_size (heap s a)"
      using a(2) s1(3,5) by (simp_all add: is_free_def)
    moreover have "a \<in> set (segments s)" using a(1) ss by simp
    ultimately show "seg_size (heap s1 a) < ?R" using lower lt by simp
  qed
  have "\<exists>s2. smalloc n s1 =
            Some (?x + hdr_size,
                  \<lparr>success = 1, payload_offset = ?x + hdr_size - base_address s1,
                   hops = int (length (filter (is_free (heap s1)) us))\<rparr>, s2)"
  proof (cases "hdr_size \<le> seg_size (heap s1 ?x) - ?R")
    case True
    from smalloc_split[OF s1(4) f1 f2 f3 refl n True] show ?thesis by blast
  next
    case False
    from smalloc_whole[OF s1(4) f1 f2 f3 refl n False] show ?thesis by blast
  qed
  then show ?thesis using s1(1,2) by auto
qed

theorem free_then_alloc_reuses_witness:
  "reaches 4096 3 65536 boot [Alloc 100, Alloc 100, Alloc 100]
     (the (run (init_state 4096 3 65536 boot) [Alloc 100, Alloc 100, Alloc 100])) \<and>
   65688 - hdr_size \<in> set (segments (the (run (init_state 4096 3 65536 boot)
     [Alloc 100, Alloc 100, Alloc 100]))) \<and>
   in_use (heap (the (run (init_state 4096 3 65536 boot) [Alloc 100, Alloc 100, Alloc 100]))
     (65688 - hdr_size)) = 1 \<and>
   align_value (hdr_size + 50) 8 \<le>
     seg_size (heap (the (run (init_state 4096 3 65536 boot) [Alloc 100, Alloc 100, Alloc 100]))
       (65688 - hdr_size)) \<and>
   (\<exists>s1 st s2.
      sfree 65688 (the (run (init_state 4096 3 65536 boot) [Alloc 100, Alloc 100, Alloc 100]))
        = Some s1 \<and>
      smalloc 50 s1 = Some (65688, st, s2) \<and> success st = 1 \<and> payload_offset st = 152)"
proof -
  let ?cs = "[Alloc 100, Alloc 100, Alloc 100]"
  let ?s = "the (run (init_state 4096 3 65536 boot) ?cs)"
  have i: "init_ok 4096 3 65536 boot" by code_simp
  have v: "valid_trace (init_state 4096 3 65536 boot) ?cs" by code_simp
  note r = reaches_the[OF i v]
  have h: "65688 - hdr_size \<in> set (segments ?s)" "in_use (heap ?s (65688 - hdr_size)) = 1"
    "align_value (hdr_size + 50) 8 \<le> seg_size (heap ?s (65688 - hdr_size))"
    by code_simp+
  have l: "\<forall>a\<in>set (segments ?s). a < 65688 - hdr_size \<longrightarrow> is_free (heap ?s) a \<longrightarrow>
             seg_size (heap ?s a) < align_value (hdr_size + 50) 8"
    by code_simp
  have p: "\<forall>a\<in>set (segments ?s). a + seg_size (heap ?s a) = 65688 - hdr_size \<longrightarrow>
             \<not> is_free (heap ?s) a"
    by code_simp
  have b: "base_address ?s = 65536" by code_simp
  have u: "in_use (heap ?s (65688 - hdr_size)) \<noteq> 0" using h(2) by simp
  have n: "(0::int) \<le> 50" "(50::int) \<le> 2147483616" by simp_all
  note T = free_then_alloc_reuses[OF r h(1) u n h(3) l p]
  from T[unfolded b] r h show ?thesis by simp
qed

text \<open>
  C8 as stated fails when a free segment lies below the released one. After three
  allocations of 100 bytes and the release of the first, releasing the second handle
  (payload offset 152) and allocating 100 bytes returns the first handle (payload offset
  24): the released segment merged into its free predecessor, and first fit takes the
  lowest address.
\<close>

theorem free_then_alloc_lower_address_counterexample:
  "reaches 4096 3 65536 boot [Alloc 100, Alloc 100, Alloc 100, Free 65560]
     (the (run (init_state 4096 3 65536 boot) [Alloc 100, Alloc 100, Alloc 100, Free 65560])) \<and>
   65688 - hdr_size \<in> set (segments (the (run (init_state 4096 3 65536 boot)
     [Alloc 100, Alloc 100, Alloc 100, Free 65560]))) \<and>
   in_use (heap (the (run (init_state 4096 3 65536 boot)
     [Alloc 100, Alloc 100, Alloc 100, Free 65560])) (65688 - hdr_size)) = 1 \<and>
   align_value (hdr_size + 100) 8 \<le>
     seg_size (heap (the (run (init_state 4096 3 65536 boot)
       [Alloc 100, Alloc 100, Alloc 100, Free 65560])) (65688 - hdr_size)) \<and>
   map_option fst
     (smalloc 100 (the (sfree 65688 (the (run (init_state 4096 3 65536 boot)
        [Alloc 100, Alloc 100, Alloc 100, Free 65560]))))) = Some 65560"
proof -
  let ?cs = "[Alloc 100, Alloc 100, Alloc 100, Free 65560]"
  let ?s = "the (run (init_state 4096 3 65536 boot) ?cs)"
  have i: "init_ok 4096 3 65536 boot" by code_simp
  have v: "valid_trace (init_state 4096 3 65536 boot) ?cs" by code_simp
  note r = reaches_the[OF i v]
  have h: "65688 - hdr_size \<in> set (segments ?s)" "in_use (heap ?s (65688 - hdr_size)) = 1"
    "align_value (hdr_size + 100) 8 \<le> seg_size (heap ?s (65688 - hdr_size))"
    "map_option fst (smalloc 100 (the (sfree 65688 ?s))) = Some 65560"
    by code_simp+
  from r h show ?thesis by simp
qed

end
